theory Spec2Isabelle
  imports Main "HOL-Library.AList"
begin

section \<open>Common values: bytes, hashes, references, errors\<close>

text \<open>
  Bytes are natural numbers below 256. A \<open>plumbing.Hash\<close> is an array of 20 bytes; its
  text form is 40 lowercase hexadecimal digits.
\<close>

type_synonym byte = nat
type_synonym hash = "byte list"

definition ZeroHash :: hash where
  "ZeroHash = replicate 20 0"

definition IsZero :: "hash \<Rightarrow> bool" where
  "IsZero h = (h = ZeroHash)"

text \<open>Every error value and every run-time panic of the two source files.\<close>

datatype error =
    ErrNotExist
  | ErrIsDir
  | ErrNotDir
  | ErrNotEmpty
  | ErrTooLong
  | ErrPackedRefsBadFormat
  | ErrReferenceNotFound
  | ErrReferenceChanged
  | ErrAlreadyInitialized
  | ErrReferenceDeltaNotFound
  | ErrNotSeekableSource
  | ErrDeltaNotCached
  | ErrObjectNotFound
  | ErrInvalidDelta
  | ErrSeekNotSupported
  | ErrBadOffset
  | ErrUnexpectedEOF
  | PanicSliceBounds
  | PanicNilDeref

fun hexval :: "char \<Rightarrow> nat option" where
  "hexval c =
     (let n = of_char c :: nat in
      if 48 \<le> n \<and> n \<le> 57 then Some (n - 48)
      else if 97 \<le> n \<and> n \<le> 102 then Some (n - 87)
      else if 65 \<le> n \<and> n \<le> 70 then Some (n - 55)
      else None)"

text \<open>
  \<open>hex.DecodeString\<close> of the Go library: the bytes decoded before the first malformed
  pair; a trailing single digit is dropped.
\<close>

fun hexDecode :: "string \<Rightarrow> byte list" where
  "hexDecode (a # b # cs) =
     (case (hexval a, hexval b) of
        (Some x, Some y) \<Rightarrow> (16 * x + y) # hexDecode cs
      | _ \<Rightarrow> [])"
| "hexDecode _ = []"

text \<open>
  Modelled from the spec: \<open>plumbing.NewHash\<close> (package plumbing is not part of the
  sources at hand). The text is decoded as hexadecimal, the decoding error is ignored, and
  the bytes decoded are copied into a zeroed 20-byte array.
\<close>

definition NewHash :: "string \<Rightarrow> hash" where
  "NewHash s = (let b = take 20 (hexDecode s) in b @ replicate (20 - length b) 0)"

definition hexdigit :: "nat \<Rightarrow> char" where
  "hexdigit n = (if n < 10 then char_of (48 + n) else char_of (87 + n))"

text \<open>Modelled from the spec: \<open>Hash.String\<close>, the lowercase hexadecimal text form.\<close>

definition hashString :: "hash \<Rightarrow> string" where
  "hashString h = concat (map (\<lambda>b. [hexdigit (b div 16), hexdigit (b mod 16)]) h)"

text \<open>
  Modelled from the spec: \<open>plumbing.Reference\<close>, a direct reference (name, hash) or a
  symbolic one (name, target name). \<open>Hash()\<close> of a symbolic reference is the zero hash.
\<close>

datatype reference =
    HashReference string hash
  | SymbolicReference string string

fun refName :: "reference \<Rightarrow> string" where
  "refName (HashReference n h) = n"
| "refName (SymbolicReference n t) = n"

fun refHash :: "reference \<Rightarrow> hash" where
  "refHash (HashReference n h) = h"
| "refHash (SymbolicReference n t) = ZeroHash"

definition symrefPrefix :: string where
  "symrefPrefix = ''ref: ''"

fun hasPrefix :: "string \<Rightarrow> string \<Rightarrow> bool" where
  "hasPrefix s p = (take (length p) s = p)"

fun hasSuffix :: "string \<Rightarrow> string \<Rightarrow> bool" where
  "hasSuffix s p = (length p \<le> length s \<and> drop (length s - length p) s = p)"

text \<open>
  Modelled from the spec: \<open>plumbing.NewReferenceFromStrings\<close>. The text form of a
  reference is told apart by the prefix \<open>ref: \<close>.
\<close>

definition NewReferenceFromStrings :: "string \<Rightarrow> string \<Rightarrow> reference" where
  "NewReferenceFromStrings name target =
     (if hasPrefix target symrefPrefix
      then SymbolicReference name (drop (length symrefPrefix) target)
      else HashReference name (NewHash target))"

text \<open>Modelled from the spec: \<open>Reference.String\<close>, the packed-refs line of a reference.\<close>

fun refString :: "reference \<Rightarrow> string" where
  "refString (HashReference n h) = hashString h @ '' '' @ n"
| "refString (SymbolicReference n t) = symrefPrefix @ t @ '' '' @ n"

section \<open>The file system\<close>

text \<open>
  The billy file system below the repository root: a tree of directories and files.
  A file carries its contents and its modification time; a directory lists its entries in
  the order \<open>ReadDir\<close> returns them. The clock of the machine is part of the state.
\<close>

datatype node =
    File string nat
  | Dir "(string \<times> node) list"

type_synonym entries = "(string \<times> node) list"
type_synonym path = "string list"

text \<open>
  Resolving a path: a missing component is \<open>ENOENT\<close> (the only error
  \<open>os.IsNotExist\<close> accepts), a file in the place of a directory is \<open>ENOTDIR\<close>.
\<close>

fun lookupPath :: "path \<Rightarrow> entries \<Rightarrow> error + node" where
  "lookupPath [] es = Inr (Dir es)"
| "lookupPath (n # ns) es =
     (case map_of es n of
        None \<Rightarrow> Inl ErrNotExist
      | Some (File c m) \<Rightarrow> (if ns = [] then Inr (File c m) else Inl ErrNotDir)
      | Some (Dir ds) \<Rightarrow> lookupPath ns ds)"

text \<open>\<open>strings.Split(s, sep)\<close> for a separator of one character.\<close>

fun splitOn :: "char \<Rightarrow> string \<Rightarrow> string \<Rightarrow> string list" where
  "splitOn sep acc [] = [rev acc]"
| "splitOn sep acc (c # cs) =
     (if c = sep then rev acc # splitOn sep [] cs else splitOn sep (c # acc) cs)"

definition Split :: "string \<Rightarrow> char \<Rightarrow> string list" where
  "Split s sep = splitOn sep [] s"

fun Join :: "string list \<Rightarrow> string" where
  "Join [] = []"
| "Join [s] = s"
| "Join (s # ss) = s @ ''/'' @ Join ss"

text \<open>
  The path a slash-separated name denotes below the root: \<open>fs.Join\<close> cleans away empty
  and \<open>.\<close> components. (Names with \<open>..\<close> components are not treated: the component
  is looked up like any other name.)
\<close>

definition pathOf :: "string \<Rightarrow> path" where
  "pathOf name = filter (\<lambda>s. s \<noteq> [] \<and> s \<noteq> ''.'') (Split name CHR ''/'')"

section \<open>Pack file enumeration\<close>

definition packExt :: string where
  "packExt = ''.pack''"

text \<open>
  The Go slice expression \<open>n[lo:hi]\<close> panics unless \<open>lo \<le> hi \<le> len(n)\<close>.
\<close>

definition goSlice :: "string \<Rightarrow> int \<Rightarrow> int \<Rightarrow> error + string" where
  "goSlice n lo hi =
     (if 0 \<le> lo \<and> lo \<le> hi \<and> hi \<le> int (length n)
      then Inr (take (nat hi - nat lo) (drop (nat lo) n))
      else Inl PanicSliceBounds)"

fun packHashes :: "string list \<Rightarrow> hash list \<Rightarrow> error + hash list" where
  "packHashes [] packs = Inr packs"
| "packHashes (n # ns) packs =
     (if \<not> hasSuffix n packExt then packHashes ns packs
      else case goSlice n 5 (int (length n) - 5) of
             Inl e \<Rightarrow> Inl e
           | Inr s \<Rightarrow> packHashes ns (packs @ [NewHash s]))"

definition ObjectPacks :: "entries \<Rightarrow> error + hash list" where
  "ObjectPacks root =
     (case lookupPath [''objects'', ''pack''] root of
        Inl e \<Rightarrow> (if e = ErrNotExist then Inr [] else Inl e)
      | Inr (File c m) \<Rightarrow> Inl ErrNotDir
      | Inr (Dir files) \<Rightarrow> packHashes (map fst files) [])"

section \<open>The repository manager\<close>

text \<open>
  \<open>OpenFile\<close> with \<open>O_CREATE\<close> and a write: the file is created with its missing
  parent directories, or replaced where it stands. \<open>Remove\<close> deletes a file or an empty
  directory.
\<close>

fun putFile :: "path \<Rightarrow> string \<Rightarrow> nat \<Rightarrow> entries \<Rightarrow> error + entries" where
  "putFile [] c m es = Inl ErrIsDir"
| "putFile (n # ns) c m es =
     (case map_of es n of
        None \<Rightarrow>
          (if ns = [] then Inr (es @ [(n, File c m)])
           else case putFile ns c m [] of
                  Inl e \<Rightarrow> Inl e
                | Inr ds' \<Rightarrow> Inr (es @ [(n, Dir ds')]))
      | Some (File c0 m0) \<Rightarrow>
          (if ns = [] then Inr (AList.update n (File c m) es) else Inl ErrNotDir)
      | Some (Dir ds) \<Rightarrow>
          (if ns = [] then Inl ErrIsDir
           else case putFile ns c m ds of
                  Inl e \<Rightarrow> Inl e
                | Inr ds' \<Rightarrow> Inr (AList.update n (Dir ds') es)))"

fun removePath :: "path \<Rightarrow> entries \<Rightarrow> error + entries" where
  "removePath [] es = Inl ErrIsDir"
| "removePath (n # ns) es =
     (case map_of es n of
        None \<Rightarrow> Inl ErrNotExist
      | Some (File c m) \<Rightarrow>
          (if ns = [] then Inr (AList.delete n es) else Inl ErrNotDir)
      | Some (Dir ds) \<Rightarrow>
          (if ns = [] then (if ds = [] then Inr (AList.delete n es) else Inl ErrNotEmpty)
           else case removePath ns ds of
                  Inl e \<Rightarrow> Inl e
                | Inr ds' \<Rightarrow> Inr (AList.update n (Dir ds') es)))"

text \<open>
  The manager: the file system it owns (with the machine's clock), the packed-refs cache
  and the time stamp of the cache. The Go map of the cache is an association list; where
  the source ranges over the map, the model takes the entries in list order (Go leaves the
  order open).
\<close>

record dotgit =
  root :: entries
  clock :: nat
  cachedPackedRefs :: "(string \<times> reference) list"
  packedRefsLastMod :: nat

definition New :: "entries \<Rightarrow> nat \<Rightarrow> dotgit" where
  "New fs now = \<lparr>root = fs, clock = now, cachedPackedRefs = [], packedRefsLastMod = 0\<rparr>"

definition packedRefsPath :: string where
  "packedRefsPath = ''packed-refs''"

definition tmpPackedRefsPrefix :: string where
  "tmpPackedRefsPrefix = ''._packed-refs''"

text \<open>
  \<open>strings.TrimSpace\<close>: leading and trailing white space is removed, that is the six
  ASCII space characters and, in their UTF-8 form, the other code points with the
  white-space property (U+0085, U+00A0, U+1680, U+2000 to U+200A, U+2028, U+2029, U+202F,
  U+205F, U+3000). The text is taken to be valid UTF-8.
\<close>

definition asciiSpace :: "char \<Rightarrow> bool" where
  "asciiSpace c = (c \<in> {CHR 0x20, CHR 0x09, CHR 0x0A, CHR 0x0B, CHR 0x0C, CHR 0x0D})"

definition spaceRune2 :: "char \<Rightarrow> char \<Rightarrow> bool" where
  "spaceRune2 a b = (a = CHR 0xC2 \<and> (b = CHR 0x85 \<or> b = CHR 0xA0))"

definition spaceRune3 :: "char \<Rightarrow> char \<Rightarrow> char \<Rightarrow> bool" where
  "spaceRune3 a b c =
     ((a = CHR 0xE1 \<and> b = CHR 0x9A \<and> c = CHR 0x80) \<or>
      (a = CHR 0xE2 \<and> b = CHR 0x80 \<and>
         ((128::nat) \<le> of_char c \<and> (of_char c :: nat) \<le> 138 \<or>
          c = CHR 0xA8 \<or> c = CHR 0xA9 \<or> c = CHR 0xAF)) \<or>
      (a = CHR 0xE2 \<and> b = CHR 0x81 \<and> c = CHR 0x9F) \<or>
      (a = CHR 0xE3 \<and> b = CHR 0x80 \<and> c = CHR 0x80))"

fun trimLeft :: "string \<Rightarrow> string" where
  "trimLeft (a # b # c # cs) =
     (if asciiSpace a then trimLeft (b # c # cs)
      else if spaceRune2 a b then trimLeft (c # cs)
      else if spaceRune3 a b c then trimLeft cs
      else a # b # c # cs)"
| "trimLeft [a, b] =
     (if asciiSpace a then trimLeft [b]
      else if spaceRune2 a b then []
      else [a, b])"
| "trimLeft [a] = (if asciiSpace a then [] else [a])"
| "trimLeft [] = []"

text \<open>The same from the end, on the reversed text.\<close>

fun trimRightRev :: "string \<Rightarrow> string" where
  "trimRightRev (c # b # a # cs) =
     (if asciiSpace c then trimRightRev (b # a # cs)
      else if spaceRune2 b c then trimRightRev (a # cs)
      else if spaceRune3 a b c then trimRightRev cs
      else c # b # a # cs)"
| "trimRightRev [c, b] =
     (if asciiSpace c then trimRightRev [b]
      else if spaceRune2 b c then []
      else [c, b])"
| "trimRightRev [c] = (if asciiSpace c then [] else [c])"
| "trimRightRev [] = []"

definition TrimSpace :: "string \<Rightarrow> string" where
  "TrimSpace s = rev (trimRightRev (rev (trimLeft s)))"

text \<open>
  \<open>bufio.Scanner\<close> with the line splitter: the lines of the text without their line
  ends (one trailing carriage return is dropped too), a last line without a line end
  included when it is not empty. A line of 65536 bytes or more does not fit the buffer:
  the scanner stops there with \<open>ErrTooLong\<close>, after the lines before it.
\<close>

definition dropCR :: "string \<Rightarrow> string" where
  "dropCR l = (if l \<noteq> [] \<and> last l = CHR 0x0D then butlast l else l)"

fun scanFrom :: "string \<Rightarrow> string \<Rightarrow> string list \<times> error option" where
  "scanFrom acc [] =
     (if acc = [] then ([], None)
      else if 65536 \<le> length acc then ([], Some ErrTooLong)
      else ([dropCR (rev acc)], None))"
| "scanFrom acc (c # cs) =
     (if c = CHR 0x0A then
        (if 65536 \<le> length acc then ([], Some ErrTooLong)
         else (case scanFrom [] cs of (ls, e) \<Rightarrow> (dropCR (rev acc) # ls, e)))
      else scanFrom (c # acc) cs)"

definition scanLines :: "string \<Rightarrow> string list \<times> error option" where
  "scanLines s = scanFrom [] s"

definition processLine :: "string \<Rightarrow> error + reference option" where
  "processLine line =
     (if length line = 0 then Inr None
      else if hd line = CHR ''#'' then Inr None
      else if hd line = CHR ''^'' then Inr None
      else (let ws = Split line CHR '' '' in
            if length ws \<noteq> 2 then Inl ErrPackedRefsBadFormat
            else Inr (Some (NewReferenceFromStrings (ws ! 1) (ws ! 0)))))"

text \<open>
  The loop of \<open>syncPackedRefs\<close> over the scanned lines: the cache is filled line by
  line and the loop stops at the first line that does not parse, keeping what it has
  stored so far.
\<close>

fun loadLines :: "string list \<Rightarrow> (string \<times> reference) list
    \<Rightarrow> error option \<times> (string \<times> reference) list" where
  "loadLines [] cache = (None, cache)"
| "loadLines (l # ls) cache =
     (case processLine l of
        Inl e \<Rightarrow> (Some e, cache)
      | Inr None \<Rightarrow> loadLines ls cache
      | Inr (Some r) \<Rightarrow> loadLines ls (AList.update (refName r) r cache))"

text \<open>
  \<open>syncPackedRefs\<close>. The manager is changed in place, also when an error is returned,
  so the call yields the error and the manager. Directories carry no time stamp in
  this model. For a directory in the place of packed-refs the source takes the time stamp
  of the directory: when it is later than the recorded one, the cache is emptied, the
  stamp is recorded and the error of reading a directory is returned, and the calls after
  that return no error. The model returns that error on every call and leaves the manager
  as it is.
\<close>

definition syncPackedRefs :: "dotgit \<Rightarrow> error option \<times> dotgit" where
  "syncPackedRefs d =
     (case lookupPath [packedRefsPath] (root d) of
        Inl e \<Rightarrow> (if e = ErrNotExist then (None, d) else (Some e, d))
      | Inr (Dir ds) \<Rightarrow> (Some ErrIsDir, d)
      | Inr (File c m) \<Rightarrow>
          (if packedRefsLastMod d < m then
             (case scanLines c of (ls, serr) \<Rightarrow>
                (case loadLines ls [] of
                   (Some e, cache) \<Rightarrow> (Some e, d\<lparr>cachedPackedRefs := cache\<rparr>)
                 | (None, cache) \<Rightarrow>
                     (serr, d\<lparr>cachedPackedRefs := cache, packedRefsLastMod := m\<rparr>)))
           else (None, d)))"

definition packedRef :: "dotgit \<Rightarrow> string \<Rightarrow> (error + reference) \<times> dotgit" where
  "packedRef d name =
     (case syncPackedRefs d of
        (Some e, d1) \<Rightarrow> (Inl e, d1)
      | (None, d1) \<Rightarrow>
          (case map_of (cachedPackedRefs d1) name of
             Some r \<Rightarrow> (Inr r, d1)
           | None \<Rightarrow> (Inl ErrReferenceNotFound, d1)))"

definition readReferenceFrom :: "string \<Rightarrow> string \<Rightarrow> reference" where
  "readReferenceFrom b name = NewReferenceFromStrings name (TrimSpace b)"

definition readReferenceFile :: "entries \<Rightarrow> string \<Rightarrow> error + reference" where
  "readReferenceFile fs name =
     (case lookupPath (pathOf name) fs of
        Inl e \<Rightarrow> Inl e
      | Inr (Dir ds) \<Rightarrow> Inl ErrIsDir
      | Inr (File c m) \<Rightarrow> Inr (readReferenceFrom c name))"

definition Ref :: "dotgit \<Rightarrow> string \<Rightarrow> (error + reference) \<times> dotgit" where
  "Ref d name =
     (case readReferenceFile (root d) name of
        Inr r \<Rightarrow> (Inr r, d)
      | Inl e \<Rightarrow> packedRef d name)"

text \<open>
  \<open>walkReferencesTree\<close>. The directory listing is the list of entries of the
  directory node; a file of the listing is read where it stands (the view of the file
  system does not change during a call, and a directory holds each name once, so the file
  opened under the joined name is the file listed). The name of a loose reference is its
  path joined by slashes. \<open>seen\<close> is the Go map used as a set.
\<close>

fun walkEntries :: "string list \<Rightarrow> entries \<Rightarrow> reference list \<times> string set
    \<Rightarrow> reference list \<times> string set" where
  "walkEntries relPath [] st = st"
| "walkEntries relPath ((n, File c m) # es) st =
     (let ref = readReferenceFrom c (Join (relPath @ [n])) in
      walkEntries relPath es
        (if refName ref \<notin> snd st then (fst st @ [ref], insert (refName ref) (snd st))
         else st))"
| "walkEntries relPath ((n, Dir ds) # es) st =
     walkEntries relPath es (walkEntries (relPath @ [n]) ds st)"

definition refsPath :: string where
  "refsPath = ''refs''"

definition addRefsFromRefDir :: "entries \<Rightarrow> reference list \<times> string set
    \<Rightarrow> error + reference list \<times> string set" where
  "addRefsFromRefDir fs st =
     (case lookupPath [refsPath] fs of
        Inl e \<Rightarrow> (if e = ErrNotExist then Inr st else Inl e)
      | Inr (File c m) \<Rightarrow> Inl ErrNotDir
      | Inr (Dir es) \<Rightarrow> Inr (walkEntries [refsPath] es st))"

fun addCached :: "(string \<times> reference) list \<Rightarrow> reference list \<times> string set
    \<Rightarrow> reference list \<times> string set" where
  "addCached [] st = st"
| "addCached ((name, ref) # cs) st =
     addCached cs
       (if name \<notin> snd st then (fst st @ [ref], insert name (snd st)) else st)"

definition addRefsFromPackedRefs :: "dotgit \<Rightarrow> reference list \<times> string set
    \<Rightarrow> (error + reference list \<times> string set) \<times> dotgit" where
  "addRefsFromPackedRefs d st =
     (case syncPackedRefs d of
        (Some e, d1) \<Rightarrow> (Inl e, d1)
      | (None, d1) \<Rightarrow> (Inr (addCached (cachedPackedRefs d1) st), d1))"

definition addRefFromHEAD :: "entries \<Rightarrow> reference list \<Rightarrow> error + reference list" where
  "addRefFromHEAD fs refs =
     (case readReferenceFile fs ''HEAD'' of
        Inl e \<Rightarrow> (if e = ErrNotExist then Inr refs else Inl e)
      | Inr ref \<Rightarrow> Inr (refs @ [ref]))"

definition Refs :: "dotgit \<Rightarrow> (error + reference list) \<times> dotgit" where
  "Refs d =
     (case addRefsFromRefDir (root d) ([], {}) of
        Inl e \<Rightarrow> (Inl e, d)
      | Inr st \<Rightarrow>
          (case addRefsFromPackedRefs d st of
             (Inl e, d1) \<Rightarrow> (Inl e, d1)
           | (Inr st1, d1) \<Rightarrow> (addRefFromHEAD (root d1) (fst st1), d1)))"

definition CountLooseRefs :: "dotgit \<Rightarrow> error + nat" where
  "CountLooseRefs d =
     (case addRefsFromRefDir (root d) ([], {}) of
        Inl e \<Rightarrow> Inl e
      | Inr st \<Rightarrow> Inr (length (fst st)))"

text \<open>
  \<open>OpenFile(name, O_RDWR|O_CREATE [|O_TRUNC])\<close>: the contents the handle reads and the
  file system after the call. A missing file is created empty; with \<open>O_TRUNC\<close> an
  existing file is emptied.
\<close>

definition openFile :: "path \<Rightarrow> bool \<Rightarrow> dotgit \<Rightarrow> error + string \<times> dotgit" where
  "openFile p trunc d =
     (case lookupPath p (root d) of
        Inr (Dir ds) \<Rightarrow> Inl ErrIsDir
      | Inr (File c m) \<Rightarrow>
          (if trunc then
             (case putFile p [] (clock d) (root d) of
                Inl e \<Rightarrow> Inl e
              | Inr fs \<Rightarrow> Inr ([], d\<lparr>root := fs\<rparr>))
           else Inr (c, d))
      | Inl e \<Rightarrow>
          (if e = ErrNotExist then
             (case putFile p [] (clock d) (root d) of
                Inl e' \<Rightarrow> Inl e'
              | Inr fs \<Rightarrow> Inr ([], d\<lparr>root := fs\<rparr>))
           else Inl e))"

text \<open>
  \<open>checkReferenceAndTruncate\<close>, up to the truncation: \<open>b\<close> is what the open handle
  reads. The truncation and the write that follows it in \<open>SetRef\<close> are one replacement
  of the contents there.
\<close>

definition checkReference :: "dotgit \<Rightarrow> string \<Rightarrow> reference option \<Rightarrow> error option \<times> dotgit" where
  "checkReference d b old =
     (case old of
        None \<Rightarrow> (None, d)
      | Some oldref \<Rightarrow>
          (let ref = readReferenceFrom b (refName oldref) in
           if IsZero (refHash ref) then
             (case packedRef d (refName oldref) of
                (Inl e, d1) \<Rightarrow> (Some e, d1)
              | (Inr pref, d1) \<Rightarrow>
                  (if refHash pref \<noteq> refHash oldref then (Some ErrReferenceChanged, d1)
                   else (None, d1)))
           else if refHash ref \<noteq> refHash oldref then (Some ErrReferenceChanged, d)
           else (None, d)))"

fun refContent :: "reference \<Rightarrow> string" where
  "refContent (SymbolicReference n t) = symrefPrefix @ t @ [CHR 0x0A]"
| "refContent (HashReference n h) = hashString h @ [CHR 0x0A]"

definition SetRef :: "dotgit \<Rightarrow> reference \<Rightarrow> reference option \<Rightarrow> error option \<times> dotgit" where
  "SetRef d r old =
     (let content = refContent r; p = pathOf (refName r) in
      case openFile p (old = None) d of
        Inl e \<Rightarrow> (Some e, d)
      | Inr (b, d1) \<Rightarrow>
          (case checkReference d1 b old of
             (Some e, d2) \<Rightarrow> (Some e, d2)
           | (None, d2) \<Rightarrow>
               (case putFile p content (clock d2) (root d2) of
                  Inl e \<Rightarrow> (Some e, d2)
                | Inr fs \<Rightarrow> (None, d2\<lparr>root := fs\<rparr>))))"

text \<open>
  The loop of \<open>PackRefs\<close> that deletes the loose references: a file that is already
  gone is passed over, any other error ends the loop with the files deleted so far.
\<close>

fun removeLoose :: "reference list \<Rightarrow> entries \<Rightarrow> error option \<times> entries" where
  "removeLoose [] fs = (None, fs)"
| "removeLoose (r # rs) fs =
     (case removePath (pathOf (refName r)) fs of
        Inl e \<Rightarrow> (if e = ErrNotExist then removeLoose rs fs else (Some e, fs))
      | Inr fs' \<Rightarrow> removeLoose rs fs')"

fun refLines :: "reference list \<Rightarrow> string" where
  "refLines [] = []"
| "refLines (r # rs) = refString r @ [CHR 0x0A] @ refLines rs"

fun cacheOf :: "reference list \<Rightarrow> (string \<times> reference) list
    \<Rightarrow> (string \<times> reference) list" where
  "cacheOf [] cache = cache"
| "cacheOf (r # rs) cache = cacheOf rs (AList.update (refName r) r cache)"

text \<open>
  \<open>PackRefs\<close>. The new packed-refs file is written to a temporary file of the same
  directory and renamed over packed-refs: one replacement of the contents, stamped with
  the time of the write. \<open>now\<close> is what \<open>time.Now()\<close> returns at the end of the
  call.
\<close>

definition PackRefs :: "dotgit \<Rightarrow> nat \<Rightarrow> error option \<times> dotgit" where
  "PackRefs d now =
     (case openFile [packedRefsPath] False d of
        Inl e \<Rightarrow> (Some e, d)
      | Inr (b, d0) \<Rightarrow>
          (case addRefsFromRefDir (root d0) ([], {}) of
             Inl e \<Rightarrow> (Some e, d0)
           | Inr st \<Rightarrow>
               (if length (fst st) = 0 then (None, d0)
                else
                  (let numLooseRefs = length (fst st) in
                   case addRefsFromPackedRefs d0 st of
                     (Inl e, d1) \<Rightarrow> (Some e, d1)
                   | (Inr st1, d1) \<Rightarrow>
                       (let refs = fst st1 in
                        case putFile [packedRefsPath] (refLines refs) (clock d1) (root d1) of
                          Inl e \<Rightarrow> (Some e, d1)
                        | Inr fs1 \<Rightarrow>
                            (case removeLoose (take numLooseRefs refs) fs1 of
                               (Some e, fs2) \<Rightarrow> (Some e, d1\<lparr>root := fs2\<rparr>)
                             | (None, fs2) \<Rightarrow>
                                 (None, d1\<lparr>root := fs2,
                                           cachedPackedRefs := cacheOf refs [],
                                           packedRefsLastMod := now\<rparr>)))))))"

text \<open>
  \<open>SetPackedRefs\<close>. \<open>Create\<close> of the billy file system opens with
  \<open>O_RDWR|O_CREATE|O_TRUNC\<close>: it empties a file that exists. The lock file
  \<open>._packed-refs\<close> stays behind.
\<close>

definition SetPackedRefs :: "dotgit \<Rightarrow> reference list \<Rightarrow> error option \<times> dotgit" where
  "SetPackedRefs d refs =
     (case openFile [tmpPackedRefsPrefix] True d of
        Inl e \<Rightarrow> (Some e, d)
      | Inr (lb, d1) \<Rightarrow>
          (case openFile [packedRefsPath] True d1 of
             Inl e \<Rightarrow> (Some e, d1)
           | Inr (buf, d2) \<Rightarrow>
               (if length buf \<noteq> 0 then (Some ErrAlreadyInitialized, d2)
                else case putFile [packedRefsPath] (refLines refs) (clock d2) (root d2) of
                       Inl e \<Rightarrow> (Some e, d2)
                     | Inr fs \<Rightarrow> (None, d2\<lparr>root := fs\<rparr>))))"

section \<open>The pack parser\<close>

subsection \<open>Objects, the scanner, the cache and the storage\<close>

type_synonym bytes = "byte list"

datatype ObjectType =
    CommitObject
  | TreeObject
  | BlobObject
  | TagObject
  | OFSDeltaObject
  | REFDeltaObject

fun IsDelta :: "ObjectType \<Rightarrow> bool" where
  "IsDelta OFSDeltaObject = True"
| "IsDelta REFDeltaObject = True"
| "IsDelta _ = False"

text \<open>
  \<open>plumbing.NewHasher\<close> is not among the sources at hand: the content hash over
  (type, length, bytes) is a parameter \<open>H\<close> of every function that hashes.
\<close>

type_synonym hasher = "ObjectType \<Rightarrow> int \<Rightarrow> bytes \<Rightarrow> hash"

definition getSHA1 :: "hasher \<Rightarrow> ObjectType \<Rightarrow> bytes \<Rightarrow> hash" where
  "getSHA1 H t data = H t (int (length data)) data"

record ObjectHeader =
  ohType :: ObjectType
  ohOffset :: int
  ohLength :: int
  ohReference :: hash
  ohOffsetReference :: int

text \<open>
  Modelled from the spec: the pack scanner (section 4.2; \<open>scanner.go\<close> is not among
  the sources at hand). A pack is the object count of its header, its records in stream
  order, each with its header, its inflated payload and the CRC-32 of its stored bytes,
  and the trailing checksum. The scanner stands before one record; \<open>SeekFromStart\<close>
  is there for a seekable source only and needs a record to begin at the offset.
\<close>

record packRecord =
  header :: ObjectHeader
  payload :: bytes
  crc :: nat

record Scanner =
  packCount :: nat
  records :: "packRecord list"
  trailer :: hash
  pos :: nat
  IsSeekable :: bool

definition NextObjectHeader :: "Scanner \<Rightarrow> error + ObjectHeader" where
  "NextObjectHeader s =
     (if pos s < length (records s) then Inr (header (records s ! pos s))
      else Inl ErrUnexpectedEOF)"

definition NextObject :: "Scanner \<Rightarrow> error + (bytes \<times> nat) \<times> Scanner" where
  "NextObject s =
     (if pos s < length (records s)
      then Inr ((payload (records s ! pos s), crc (records s ! pos s)), s\<lparr>pos := pos s + 1\<rparr>)
      else Inl ErrUnexpectedEOF)"

fun findOffset :: "int \<Rightarrow> packRecord list \<Rightarrow> nat \<Rightarrow> nat option" where
  "findOffset off [] i = None"
| "findOffset off (r # rs) i =
     (if ohOffset (header r) = off then Some i else findOffset off rs (i + 1))"

definition SeekFromStart :: "Scanner \<Rightarrow> int \<Rightarrow> error + Scanner" where
  "SeekFromStart s off =
     (if \<not> IsSeekable s then Inl ErrSeekNotSupported
      else case findOffset off (records s) 0 of
             None \<Rightarrow> Inl ErrBadOffset
           | Some i \<Rightarrow> Inr (s\<lparr>pos := i\<rparr>))"

text \<open>
  Modelled from the spec: the least-recently-used buffer cache keyed by offset
  (\<open>cache.BufferLRU\<close>, section 4.3), most recently used entry first, bounded by the
  total size of its buffers.
\<close>

type_synonym bufferLRU = "(int \<times> bytes) list"

definition cacheMaxSize :: nat where
  "cacheMaxSize = 96 * 1024 * 1024"

definition cacheSize :: "bufferLRU \<Rightarrow> nat" where
  "cacheSize c = sum_list (map (\<lambda>e. length (snd e)) c)"

fun evict :: "nat \<Rightarrow> bufferLRU \<Rightarrow> bufferLRU" where
  "evict 0 c = c"
| "evict (Suc n) c = (if cacheMaxSize < cacheSize c then evict n (butlast c) else c)"

definition cacheGet :: "bufferLRU \<Rightarrow> int \<Rightarrow> bytes option \<times> bufferLRU" where
  "cacheGet c k =
     (case map_of c k of
        None \<Rightarrow> (None, c)
      | Some v \<Rightarrow> (Some v, (k, v) # AList.delete k c))"

definition cachePut :: "bufferLRU \<Rightarrow> int \<Rightarrow> bytes \<Rightarrow> bufferLRU" where
  "cachePut c k v =
     (case map_of c k of
        Some old \<Rightarrow> (let c' = (k, v) # AList.delete k c in evict (length c') c')
      | None \<Rightarrow>
          (if cacheMaxSize < length v then c
           else (let c' = (k, v) # c in evict (length c') c')))"

text \<open>
  Modelled from the spec: the storage sink (\<open>storer.EncodedObjectStorer\<close>, section 9)
  with its two operations. An object is kept under the hash of its type and contents.
\<close>

type_synonym objectStore = "(hash \<times> ObjectType \<times> bytes) list"

definition SetEncodedObject :: "hasher \<Rightarrow> objectStore \<Rightarrow> ObjectType \<Rightarrow> bytes \<Rightarrow> objectStore" where
  "SetEncodedObject H st t cont = AList.update (getSHA1 H t cont) (t, cont) st"

definition EncodedObject :: "objectStore \<Rightarrow> hash \<Rightarrow> error + ObjectType \<times> bytes" where
  "EncodedObject st h =
     (case map_of st h of None \<Rightarrow> Inl ErrObjectNotFound | Some e \<Rightarrow> Inr e)"

subsection \<open>Delta patches\<close>

text \<open>
  Modelled from the spec: \<open>PatchDelta\<close> (\<open>patch_delta.go\<close> is not among the sources
  at hand), after the delta patch format of section 4.3: two variable-length sizes, then
  copy instructions (top bit set, the low bits telling which offset and size bytes
  follow, size zero standing for 0x10000) and insert instructions (top bit clear, the
  instruction byte being the number of literal bytes); the zero byte is reserved.
\<close>

fun decodeLEB128 :: "bytes \<Rightarrow> nat \<times> bytes" where
  "decodeLEB128 [] = (0, [])"
| "decodeLEB128 (b # bs) =
     (if b < 128 then (b, bs)
      else (case decodeLEB128 bs of (v, rest) \<Rightarrow> (b mod 128 + 128 * v, rest)))"

fun gather :: "bool list \<Rightarrow> bytes \<Rightarrow> nat" where
  "gather [] bs = 0"
| "gather (f # fs) bs =
     (if f then (case bs of [] \<Rightarrow> 0 | b # bs' \<Rightarrow> b + 256 * gather fs bs')
      else 256 * gather fs bs)"

definition bitSet :: "nat \<Rightarrow> nat \<Rightarrow> bool" where
  "bitSet cmd i = odd (cmd div 2 ^ i)"

text \<open>
  One instruction: the number of bytes it takes after the instruction byte and the bytes
  it adds to the target.
\<close>

definition deltaStep :: "bytes \<Rightarrow> nat \<Rightarrow> bytes \<Rightarrow> error + nat \<times> bytes" where
  "deltaStep base cmd rest =
     (if 128 \<le> cmd then
        (let oflags = map (bitSet cmd) [0, 1, 2, 3];
             sflags = map (bitSet cmd) [4, 5, 6];
             no = length (filter id oflags);
             ns = length (filter id sflags)
         in if length rest < no + ns then Inl ErrInvalidDelta
            else (let offset = gather oflags (take no rest);
                      sz0 = gather sflags (take ns (drop no rest));
                      sz = (if sz0 = 0 then 65536 else sz0)
                  in if length base < offset + sz then Inl ErrInvalidDelta
                     else Inr (no + ns, take sz (drop offset base))))
      else if 0 < cmd then
        (if length rest < cmd then Inl ErrInvalidDelta else Inr (cmd, take cmd rest))
      else Inl ErrInvalidDelta)"

fun applyCmds :: "bytes \<Rightarrow> bytes \<Rightarrow> bytes \<Rightarrow> error + bytes" where
  "applyCmds base [] out = Inr out"
| "applyCmds base (cmd # rest) out =
     (case deltaStep base cmd rest of
        Inl e \<Rightarrow> Inl e
      | Inr (k, chunk) \<Rightarrow> applyCmds base (drop k rest) (out @ chunk))"

definition PatchDelta :: "bytes \<Rightarrow> bytes \<Rightarrow> error + bytes" where
  "PatchDelta src delta =
     (case decodeLEB128 delta of (srcSz, d1) \<Rightarrow>
        if srcSz \<noteq> length src then Inl ErrInvalidDelta
        else (case decodeLEB128 d1 of (targetSz, d2) \<Rightarrow>
                (case applyCmds src d2 [] of
                   Inl e \<Rightarrow> Inl e
                 | Inr out \<Rightarrow> if length out = targetSz then Inr out else Inl ErrInvalidDelta)))"

subsection \<open>The parser\<close>

text \<open>
  An \<open>objectInfo\<close> is reached through pointers in the source (\<open>Parent\<close>,
  \<open>Children\<close>, the three maps, the pending lists). Here the nodes live in the list
  \<open>oi\<close>, the node of the i-th record at index i, and a pointer is an index into it; the
  nil pointer is \<open>None\<close>.
\<close>

record objectInfo =
  Offset :: int
  Length :: int
  Type :: ObjectType
  DiskType :: ObjectType
  Crc32 :: nat
  Parent :: "nat option"
  Children :: "nat list"
  SHA1 :: hash

definition newDeltaObject :: "int \<Rightarrow> int \<Rightarrow> ObjectType \<Rightarrow> nat option \<Rightarrow> objectInfo" where
  "newDeltaObject offset len t parent =
     \<lparr>Offset = offset, Length = len, Type = t, DiskType = t, Crc32 = 0,
      Parent = parent, Children = [], SHA1 = ZeroHash\<rparr>"

definition newBaseObject :: "int \<Rightarrow> int \<Rightarrow> ObjectType \<Rightarrow> objectInfo" where
  "newBaseObject offset len t = newDeltaObject offset len t None"

text \<open>
  The observers: each is the error, if any, with which it answers a callback. Every call
  made is recorded in \<open>calls\<close>, with the index of the observer called.
\<close>

datatype event =
    OnHeader nat
  | OnInflatedObjectHeader ObjectType int int
  | OnInflatedObjectContent hash int nat bytes
  | OnFooter hash

record Parser =
  storage :: "objectStore option"
  scanner :: Scanner
  count :: nat
  oi :: "objectInfo list"
  oiByHash :: "(hash \<times> nat) list"
  oiByOffset :: "(int \<times> nat) list"
  pendingRefDeltas :: "(hash \<times> nat list) list"
  checksum :: hash
  cache :: bufferLRU
  deltas :: "(int \<times> bytes) list"
  ob :: "(event \<Rightarrow> error option) list"
  calls :: "(nat \<times> event) list"

definition NewParserWithStorage ::
    "Scanner \<Rightarrow> objectStore option \<Rightarrow> (event \<Rightarrow> error option) list \<Rightarrow> error + Parser" where
  "NewParserWithStorage sc st obs =
     (if \<not> IsSeekable sc \<and> st = None then Inl ErrNotSeekableSource
      else Inr \<lparr>storage = st, scanner = sc, count = 0, oi = [], oiByHash = [],
                oiByOffset = [], pendingRefDeltas = [], checksum = ZeroHash, cache = [],
                deltas = [], ob = obs, calls = []\<rparr>)"

definition NewParser :: "Scanner \<Rightarrow> (event \<Rightarrow> error option) list \<Rightarrow> error + Parser" where
  "NewParser sc obs = NewParserWithStorage sc None obs"

fun forEachObserver :: "(event \<Rightarrow> error option) list \<Rightarrow> nat \<Rightarrow> event \<Rightarrow> (nat \<times> event) list
    \<Rightarrow> error option \<times> (nat \<times> event) list" where
  "forEachObserver [] i ev log = (None, log)"
| "forEachObserver (f # fs) i ev log =
     (case f ev of
        Some e \<Rightarrow> (Some e, log @ [(i, ev)])
      | None \<Rightarrow> forEachObserver fs (i + 1) ev (log @ [(i, ev)]))"

definition notify :: "Parser \<Rightarrow> event \<Rightarrow> error option \<times> Parser" where
  "notify p ev =
     (case forEachObserver (ob p) 0 ev (calls p) of (e, log) \<Rightarrow> (e, p\<lparr>calls := log\<rparr>))"

definition init :: "Parser \<Rightarrow> error option \<times> Parser" where
  "init p =
     (let c = packCount (scanner p) in
      case notify p (OnHeader c) of
        (Some e, p1) \<Rightarrow> (Some e, p1)
      | (None, p1) \<Rightarrow> (None, p1\<lparr>count := c, oiByHash := [], oiByOffset := [], oi := []\<rparr>))"

text \<open>
  One round of the loop of \<open>indexObjects\<close>, for the record of index \<open>i\<close>. The node is
  allocated as node \<open>i\<close> when it is made; the source stores its pointer in \<open>p.oi[i]\<close> at
  the end of the round.
\<close>

definition addChild :: "nat \<Rightarrow> nat \<Rightarrow> objectInfo list \<Rightarrow> objectInfo list" where
  "addChild parent child nodes =
     nodes[parent := (nodes ! parent)\<lparr>Children := Children (nodes ! parent) @ [child]\<rparr>]"

definition indexObject :: "hasher \<Rightarrow> nat \<Rightarrow> Parser \<Rightarrow> error option \<times> Parser" where
  "indexObject H i p =
     (case NextObjectHeader (scanner p) of
        Inl e \<Rightarrow> (Some e, p)
      | Inr oh \<Rightarrow>
          (let t = ohType oh;
               delta = IsDelta t;
               made =
                 (if t = OFSDeltaObject then
                    (case map_of (oiByOffset p) (ohOffsetReference oh) of
                       None \<Rightarrow> Inl ErrObjectNotFound
                     | Some parent \<Rightarrow>
                         Inr (p\<lparr>oi := addChild parent i
                                  (oi p @ [newDeltaObject (ohOffset oh) (ohLength oh) t (Some parent)])\<rparr>))
                  else if t = REFDeltaObject then
                    (case map_of (oiByHash p) (ohReference oh) of
                       Some parent \<Rightarrow>
                         Inr (p\<lparr>oi := addChild parent i
                                  (oi p @ [newDeltaObject (ohOffset oh) (ohLength oh) t (Some parent)])\<rparr>)
                     | None \<Rightarrow>
                         Inr (p\<lparr>oi := oi p @ [newBaseObject (ohOffset oh) (ohLength oh) t],
                                pendingRefDeltas :=
                                  AList.update (ohReference oh)
                                    ((case map_of (pendingRefDeltas p) (ohReference oh) of
                                        None \<Rightarrow> [] | Some l \<Rightarrow> l) @ [i])
                                    (pendingRefDeltas p)\<rparr>))
                  else Inr (p\<lparr>oi := oi p @ [newBaseObject (ohOffset oh) (ohLength oh) t]\<rparr>))
           in case made of
                Inl e \<Rightarrow> (Some e, p)
              | Inr p1 \<Rightarrow>
                  (case NextObject (scanner p1) of
                     Inl e \<Rightarrow> (Some e, p1)
                   | Inr ((data, c), sc) \<Rightarrow>
                       (let p2 = p1\<lparr>scanner := sc,
                                     oi := (oi p1)[i := (oi p1 ! i)\<lparr>Crc32 := c, Length := ohLength oh\<rparr>]\<rparr>;
                            p3 = (if \<not> delta then
                                    (let sha1 = getSHA1 H (Type (oi p2 ! i)) data in
                                     p2\<lparr>oi := (oi p2)[i := (oi p2 ! i)\<lparr>SHA1 := sha1\<rparr>],
                                        oiByHash := AList.update sha1 i (oiByHash p2)\<rparr>)
                                  else p2);
                            p4 = (case storage p3 of
                                    Some st \<Rightarrow>
                                      (if \<not> delta
                                       then p3\<lparr>storage := Some (SetEncodedObject H st (ohType oh) data)\<rparr>
                                       else p3)
                                  | None \<Rightarrow> p3);
                            p5 = (if delta \<and> \<not> IsSeekable (scanner p4)
                                  then p4\<lparr>deltas := AList.update (ohOffset oh) data (deltas p4)\<rparr>
                                  else p4)
                        in (None, p5\<lparr>oiByOffset := AList.update (ohOffset oh) i (oiByOffset p5)\<rparr>)))))"

fun indexLoop :: "hasher \<Rightarrow> nat \<Rightarrow> nat \<Rightarrow> Parser \<Rightarrow> error option \<times> Parser" where
  "indexLoop H i 0 p = (None, p)"
| "indexLoop H i (Suc n) p =
     (case indexObject H i p of
        (Some e, p1) \<Rightarrow> (Some e, p1)
      | (None, p1) \<Rightarrow> indexLoop H (i + 1) n p1)"

definition indexObjects :: "hasher \<Rightarrow> Parser \<Rightarrow> error option \<times> Parser" where
  "indexObjects H p = indexLoop H 0 (count p) p"

definition readData :: "Parser \<Rightarrow> nat \<Rightarrow> (error + bytes) \<times> Parser" where
  "readData p i =
     (let o' = oi p ! i in
      if \<not> IsSeekable (scanner p) \<and> IsDelta (DiskType o') then
        (case map_of (deltas p) (Offset o') of
           None \<Rightarrow> (Inl ErrDeltaNotCached, p)
         | Some data \<Rightarrow> (Inr data, p))
      else
        (case SeekFromStart (scanner p) (Offset o') of
           Inl e \<Rightarrow> (Inl e, p)
         | Inr sc \<Rightarrow>
             (case NextObjectHeader sc of
                Inl e \<Rightarrow> (Inl e, p\<lparr>scanner := sc\<rparr>)
              | Inr oh \<Rightarrow>
                  (case NextObject sc of
                     Inl e \<Rightarrow> (Inl e, p\<lparr>scanner := sc\<rparr>)
                   | Inr ((data, c), sc') \<Rightarrow> (Inr data, p\<lparr>scanner := sc'\<rparr>)))))"

text \<open>
  \<open>applyPatchBase\<close>: the patched contents and the node, whose type, hash and length
  are set when its hash is still zero. Reading the type of a nil parent panics.
\<close>

definition applyPatchBase ::
    "hasher \<Rightarrow> objectInfo list \<Rightarrow> nat \<Rightarrow> bytes \<Rightarrow> bytes \<Rightarrow> error + bytes \<times> objectInfo list" where
  "applyPatchBase H nodes i data base =
     (case PatchDelta base data of
        Inl e \<Rightarrow> Inl e
      | Inr patched \<Rightarrow>
          (if SHA1 (nodes ! i) = ZeroHash then
             (case Parent (nodes ! i) of
                None \<Rightarrow> Inl PanicNilDeref
              | Some par \<Rightarrow>
                  (let t = Type (nodes ! par) in
                   Inr (patched,
                        nodes[i := (nodes ! i)\<lparr>Type := t, SHA1 := getSHA1 H t patched,
                                               Length := int (length patched)\<rparr>])))
           else Inr (patched, nodes)))"

text \<open>The pending reference-deltas that waited for node \<open>i\<close> become its children.\<close>

fun attachPending :: "nat \<Rightarrow> nat list \<Rightarrow> objectInfo list \<Rightarrow> objectInfo list" where
  "attachPending i [] nodes = nodes"
| "attachPending i (po # pos') nodes =
     attachPending i pos' (addChild i po (nodes[po := (nodes ! po)\<lparr>Parent := Some i\<rparr>]))"

definition resolveObject :: "hasher \<Rightarrow> Parser \<Rightarrow> nat \<Rightarrow> bytes \<Rightarrow> (error + bytes) \<times> Parser" where
  "resolveObject H p i base =
     (if \<not> IsDelta (DiskType (oi p ! i)) then (Inr [], p)
      else case readData p i of
             (Inl e, p1) \<Rightarrow> (Inl e, p1)
           | (Inr data, p1) \<Rightarrow>
               (case applyPatchBase H (oi p1) i data base of
                  Inl e \<Rightarrow> (Inl e, p1)
                | Inr (patched, nodes) \<Rightarrow>
                    (let p2 = p1\<lparr>oi := nodes\<rparr>;
                         h = SHA1 (oi p2 ! i);
                         p3 = (case map_of (pendingRefDeltas p2) h of
                                 Some pending \<Rightarrow>
                                   p2\<lparr>oi := attachPending i pending (oi p2),
                                      pendingRefDeltas := AList.delete h (pendingRefDeltas p2)\<rparr>
                               | None \<Rightarrow> p2);
                         p4 = (case storage p3 of
                                 Some st \<Rightarrow>
                                   p3\<lparr>storage :=
                                        Some (SetEncodedObject H st (Type (oi p3 ! i)) patched)\<rparr>
                               | None \<Rightarrow> p3)
                     in (Inr patched, p4))))"

text \<open>
  \<open>get\<close> follows the parent pointers, which nothing in the types keeps from running in
  a circle: the recursion carries fuel, and \<open>None\<close> is a call that has not returned
  within it. \<open>get\<close> of the nil pointer panics at its first field access. A buffer found
  in the cache is returned as it is (the source computes an empty buffer that was cached
  as nil once more, with the same bytes as result).
\<close>

fun get :: "hasher \<Rightarrow> nat \<Rightarrow> Parser \<Rightarrow> nat option \<Rightarrow> ((error + bytes) \<times> Parser) option" where
  "get H fuel p None = Some (Inl PanicNilDeref, p)"
| "get H 0 p (Some i) = None"
| "get H (Suc fuel) p (Some i) =
     (let o' = oi p ! i in
      case cacheGet (cache p) (Offset o') of (b, c1) \<Rightarrow>
        (let p1 = p\<lparr>cache := c1\<rparr>;
             found =
               (case (b, storage p1) of
                  (None, Some st) \<Rightarrow>
                    (if \<not> IsDelta (Type o') then
                       (case EncodedObject st (SHA1 o') of
                          Inl e \<Rightarrow> Inl e
                        | Inr (t, cont) \<Rightarrow> Inr (Some cont))
                     else Inr None)
                | _ \<Rightarrow> Inr b)
         in case found of
              Inl e \<Rightarrow> Some (Inl e, p1)
            | Inr (Some buf) \<Rightarrow> Some (Inr buf, p1)
            | Inr None \<Rightarrow>
                (let computed =
                       (if IsDelta (DiskType o') then
                          (case get H fuel p1 (Parent o') of
                             None \<Rightarrow> None
                           | Some (Inl e, p2) \<Rightarrow> Some (Inl e, p2)
                           | Some (Inr base, p2) \<Rightarrow> Some (resolveObject H p2 i base))
                        else Some (readData p1 i))
                 in case computed of
                      None \<Rightarrow> None
                    | Some (Inl e, p3) \<Rightarrow> Some (Inl e, p3)
                    | Some (Inr data, p3) \<Rightarrow>
                        Some (Inr data,
                              if 0 < length (Children (oi p3 ! i))
                              then p3\<lparr>cache := cachePut (cache p3) (Offset (oi p3 ! i)) data\<rparr>
                              else p3))))"

fun resolveChildren :: "hasher \<Rightarrow> Parser \<Rightarrow> nat list \<Rightarrow> bytes \<Rightarrow> error option \<times> Parser" where
  "resolveChildren H p [] content = (None, p)"
| "resolveChildren H p (child # cs) content =
     (case resolveObject H p child content of
        (Inl e, p1) \<Rightarrow> (Some e, p1)
      | (Inr data, p1) \<Rightarrow> resolveChildren H p1 cs content)"

text \<open>One round of the loop of \<open>resolveDeltas\<close>, for the node of index \<open>k\<close>.\<close>

definition resolveDelta :: "hasher \<Rightarrow> nat \<Rightarrow> Parser \<Rightarrow> nat \<Rightarrow> (error option \<times> Parser) option" where
  "resolveDelta H fuel p k =
     (case get H fuel p (Some k) of
        None \<Rightarrow> None
      | Some (Inl e, p1) \<Rightarrow> Some (Some e, p1)
      | Some (Inr content, p1) \<Rightarrow>
          (let obj = oi p1 ! k in
           case notify p1 (OnInflatedObjectHeader (Type obj) (Length obj) (Offset obj)) of
             (Some e, p2) \<Rightarrow> Some (Some e, p2)
           | (None, p2) \<Rightarrow>
               (case notify p2 (OnInflatedObjectContent (SHA1 obj) (Offset obj) (Crc32 obj) content) of
                  (Some e, p3) \<Rightarrow> Some (Some e, p3)
                | (None, p3) \<Rightarrow>
                    (if \<not> IsDelta (Type obj) \<and> 0 < length (Children obj) then
                       (case resolveChildren H p3 (Children obj) content of
                          (Some e, p4) \<Rightarrow> Some (Some e, p4)
                        | (None, p4) \<Rightarrow>
                            Some (None,
                                  if IsDelta (DiskType obj) \<and> \<not> IsSeekable (scanner p4)
                                  then p4\<lparr>deltas := AList.delete (Offset obj) (deltas p4)\<rparr>
                                  else p4))
                     else Some (None, p3)))))"

fun resolveLoop :: "hasher \<Rightarrow> nat \<Rightarrow> nat \<Rightarrow> nat \<Rightarrow> Parser \<Rightarrow> (error option \<times> Parser) option" where
  "resolveLoop H fuel k 0 p = Some (None, p)"
| "resolveLoop H fuel k (Suc n) p =
     (case resolveDelta H fuel p k of
        None \<Rightarrow> None
      | Some (Some e, p1) \<Rightarrow> Some (Some e, p1)
      | Some (None, p1) \<Rightarrow> resolveLoop H fuel (k + 1) n p1)"

definition resolveDeltas :: "hasher \<Rightarrow> nat \<Rightarrow> Parser \<Rightarrow> (error option \<times> Parser) option" where
  "resolveDeltas H fuel p = resolveLoop H fuel 0 (length (oi p)) p"

text \<open>
  \<open>Parse\<close>. The header of the pack and its trailing checksum are read from the scanner
  without error. \<open>init\<close> does not touch the pending reference-deltas, the cache and
  the retained deltas.
\<close>

definition Parse :: "hasher \<Rightarrow> nat \<Rightarrow> Parser \<Rightarrow> ((error + hash) \<times> Parser) option" where
  "Parse H fuel p =
     (case init p of
        (Some e, p1) \<Rightarrow> Some (Inl e, p1)
      | (None, p1) \<Rightarrow>
          (case indexObjects H p1 of
             (Some e, p2) \<Rightarrow> Some (Inl e, p2)
           | (None, p2) \<Rightarrow>
               (let p3 = p2\<lparr>checksum := trailer (scanner p2)\<rparr> in
                case resolveDeltas H fuel p3 of
                  None \<Rightarrow> None
                | Some (Some e, p4) \<Rightarrow> Some (Inl e, p4)
                | Some (None, p4) \<Rightarrow>
                    (if 0 < length (pendingRefDeltas p4) then Some (Inl ErrReferenceDeltaNotFound, p4)
                     else case notify p4 (OnFooter (checksum p4)) of
                            (Some e, p5) \<Rightarrow> Some (Inl e, p5)
                          | (None, p5) \<Rightarrow> Some (Inr (checksum p5), p5)))))"

section \<open>Well-formed states\<close>

text \<open>
  A directory holds each name once, and a name is not empty, not \<open>.\<close> and has no
  slash. The packed-refs cache is keyed by the names of its references, and it is empty
  as long as there is no packed-refs file: this holds for a new manager and is kept by
  the operations of the manager. \<open>filePaths\<close> lists the paths of the files of a tree,
  \<open>refPairs\<close> is what a caller observes of the result of \<open>Refs\<close>.
\<close>

fun validName :: "string \<Rightarrow> bool" where
  "validName n = (n \<noteq> [] \<and> n \<noteq> ''.'' \<and> CHR ''/'' \<notin> set n)"

fun wfNode :: "node \<Rightarrow> bool" and wfEntries :: "entries \<Rightarrow> bool" where
  "wfNode (File c m) = True"
| "wfNode (Dir es) = wfEntries es"
| "wfEntries [] = True"
| "wfEntries ((n, x) # es) = (validName n \<and> n \<notin> fst ` set es \<and> wfNode x \<and> wfEntries es)"

fun filePaths :: "entries \<Rightarrow> path list" where
  "filePaths [] = []"
| "filePaths ((n, File c m) # es) = [n] # filePaths es"
| "filePaths ((n, Dir ds) # es) = map ((#) n) (filePaths ds) @ filePaths es"

definition keysOk :: "(string \<times> reference) list \<Rightarrow> bool" where
  "keysOk cached = (\<forall>(k, r) \<in> set cached. refName r = k)"

definition seenOk :: "reference list \<times> string set \<Rightarrow> bool" where
  "seenOk st = (snd st = refName ` set (fst st) \<and> distinct (map refName (fst st)))"

text \<open>One step of the walk at a file.\<close>

definition noteRef :: "reference \<Rightarrow> reference list \<times> string set \<Rightarrow> reference list \<times> string set" where
  "noteRef ref st =
     (if refName ref \<notin> snd st then (fst st @ [ref], insert (refName ref) (snd st)) else st)"

definition wfManager :: "dotgit \<Rightarrow> bool" where
  "wfManager d =
     (wfEntries (root d) \<and> keysOk (cachedPackedRefs d) \<and>
      (lookupPath [packedRefsPath] (root d) = Inl ErrNotExist \<longrightarrow> cachedPackedRefs d = []))"

fun refPairs :: "error + reference list \<Rightarrow> error + (string \<times> hash) set" where
  "refPairs (Inl e) = Inl e"
| "refPairs (Inr rs) = Inr ((\<lambda>r. (refName r, refHash r)) ` set rs)"

section \<open>Example values\<close>

text \<open>Three hashes in their text form.\<close>

definition hexA :: string where
  "hexA = ''aaaaaaaaaaaaaaaaaaaaaaaaaaaaaaaaaaaaaaaa''"

definition hexB :: string where
  "hexB = ''bbbbbbbbbbbbbbbbbbbbbbbbbbbbbbbbbbbbbbbb''"

definition hexC :: string where
  "hexC = ''cccccccccccccccccccccccccccccccccccccccc''"

subsection \<open>Example packs\<close>

text \<open>
  SHA-1 is not modelled. The examples use a stand-in hash that gives the objects of the
  examples distinct hashes, none of them zero: the type tag followed by the contents,
  padded to 20 bytes.
\<close>

definition str :: "string \<Rightarrow> bytes" where
  "str s = map of_char s"

fun typeTag :: "ObjectType \<Rightarrow> nat" where
  "typeTag CommitObject = 1"
| "typeTag TreeObject = 2"
| "typeTag BlobObject = 3"
| "typeTag TagObject = 4"
| "typeTag OFSDeltaObject = 6"
| "typeTag REFDeltaObject = 7"

definition exampleHasher :: hasher where
  "exampleHasher t n d =
     take 20 (typeTag t # d @ [1, 1, 1, 1, 1, 1, 1, 1, 1, 1, 1, 1, 1, 1, 1, 1, 1, 1, 1, 1])"

definition packObject :: "ObjectType \<Rightarrow> int \<Rightarrow> hash \<Rightarrow> int \<Rightarrow> bytes \<Rightarrow> nat \<Rightarrow> packRecord" where
  "packObject t off r oref pl c =
     \<lparr>header = \<lparr>ohType = t, ohOffset = off, ohLength = int (length pl), ohReference = r,
                 ohOffsetReference = oref\<rparr>,
      payload = pl, crc = c\<rparr>"

definition scannerOf :: "packRecord list \<Rightarrow> bool \<Rightarrow> Scanner" where
  "scannerOf rs sk =
     \<lparr>packCount = length rs, records = rs, trailer = [9, 9, 9, 9, 9, 9, 9, 9, 9, 9, 9, 9, 9, 9, 9, 9, 9, 9, 9, 9], pos = 0, IsSeekable = sk\<rparr>"

text \<open>One observer, which accepts every callback.\<close>

definition recorder :: "(event \<Rightarrow> error option) list" where
  "recorder = [\<lambda>ev. None]"

text \<open>
  The (hash, type, length, crc) tuples an observer is given: the type and length of an
  \<open>OnInflatedObjectHeader\<close> call with the hash and CRC of the
  \<open>OnInflatedObjectContent\<close> call that follows it.
\<close>

fun emitted :: "(nat \<times> event) list \<Rightarrow> (hash \<times> ObjectType \<times> int \<times> nat) list" where
  "emitted ((i, OnInflatedObjectHeader t sz off) # (j, OnInflatedObjectContent h off' c b) # es) =
     (h, t, sz, c) # emitted es"
| "emitted (e # es) = emitted es"
| "emitted [] = []"

text \<open>
  Deltas: over a base of 2 bytes, copy it and add \<open>c\<close>; over 3 bytes, copy and add
  \<open>d\<close>; over 4 bytes, copy and add \<open>e\<close>.
\<close>

definition deltaC :: bytes where
  "deltaC = [2, 3, 144, 2, 1, 99]"

definition deltaD :: bytes where
  "deltaD = [3, 4, 144, 3, 1, 100]"

definition deltaE :: bytes where
  "deltaE = [4, 5, 144, 4, 1, 101]"

text \<open>
  Scenario S6 of the specification, with shorter contents: a blob and a chain of two
  offset-deltas over it.
\<close>

definition packChain :: "packRecord list" where
  "packChain =
     [packObject BlobObject 12 ZeroHash 0 (str ''ab'') 100,
      packObject OFSDeltaObject 30 ZeroHash 12 deltaC 101,
      packObject OFSDeltaObject 50 ZeroHash 30 deltaD 102]"

text \<open>A thin pack: one reference-delta whose base is not in the pack.\<close>

definition packThin :: "packRecord list" where
  "packThin =
     [packObject REFDeltaObject 12 (exampleHasher BlobObject 2 (str ''ab'')) 0 deltaC 100]"

text \<open>
  Scenario S7 of the specification: a reference-delta, then its base, the blob \<open>ab\<close>.
\<close>

definition packForward :: "packRecord list" where
  "packForward =
     [packObject REFDeltaObject 12 (exampleHasher BlobObject 2 (str ''ab'')) 0 deltaC 100,
      packObject BlobObject 30 ZeroHash 0 (str ''ab'') 101]"

text \<open>
  Five objects: the blob \<open>ab\<close>; a reference-delta over the object \<open>abc\<close>, giving
  \<open>abcd\<close>; an offset-delta over that one, giving \<open>abcde\<close>; the object \<open>abc\<close>
  itself, an offset-delta over the first blob; the blob \<open>z\<close>.
\<close>

definition packFive :: "packRecord list" where
  "packFive =
     [packObject BlobObject 12 ZeroHash 0 (str ''ab'') 100,
      packObject REFDeltaObject 30 (exampleHasher BlobObject 3 (str ''abc'')) 0 deltaD 101,
      packObject OFSDeltaObject 50 ZeroHash 30 deltaE 102,
      packObject OFSDeltaObject 70 ZeroHash 12 deltaC 103,
      packObject BlobObject 90 ZeroHash 0 (str ''z'') 104]"

text \<open>
  A parse from a new parser: the result of \<open>Parse\<close>, the tuples emitted and the
  pending reference-deltas left.
\<close>

definition parsePack :: "packRecord list \<Rightarrow> bool \<Rightarrow> objectStore option
    \<Rightarrow> ((error + hash) \<times> (hash \<times> ObjectType \<times> int \<times> nat) list \<times> (hash \<times> nat list) list) option" where
  "parsePack rs seekable st =
     (case NewParserWithStorage (scannerOf rs seekable) st recorder of
        Inl e \<Rightarrow> Some (Inl e, [], [])
      | Inr p \<Rightarrow>
          (case Parse exampleHasher (length rs + 1) p of
             None \<Rightarrow> None
           | Some (r, p') \<Rightarrow> Some (r, emitted (calls p'), pendingRefDeltas p')))"

section \<open>Properties of the repository manager\<close>

lemma replicate_20:
  "replicate 20 x = [x, x, x, x, x, x, x, x, x, x, x, x, x, x, x, x, x, x, x, x]"
  by (simp add: numeral_eq_Suc)

lemma ZeroHash_list: "ZeroHash = [0, 0, 0, 0, 0, 0, 0, 0, 0, 0, 0, 0, 0, 0, 0, 0, 0, 0, 0, 0]"
  by (simp add: ZeroHash_def replicate_20)

lemmas dotgit_eval =
  ObjectPacks_def goSlice_def packExt_def New_def Refs_def addRefsFromRefDir_def
  addRefsFromPackedRefs_def addRefFromHEAD_def syncPackedRefs_def refsPath_def
  packedRefsPath_def readReferenceFile_def readReferenceFrom_def pathOf_def Split_def
  scanLines_def processLine_def NewReferenceFromStrings_def symrefPrefix_def NewHash_def
  TrimSpace_def asciiSpace_def spaceRune2_def spaceRune3_def dropCR_def SetPackedRefs_def openFile_def
  tmpPackedRefsPrefix_def SetRef_def checkReference_def packedRef_def IsZero_def
  ZeroHash_def replicate_20 Ref_def hashString_def hexdigit_def Let_def hexA_def hexB_def hexC_def

text \<open>The letters that \<open>hexdigit\<close> writes for the digits ten to twelve.\<close>

lemma char_of_abc:
  "char_of (97 :: nat) = CHR ''a''" "char_of (98 :: nat) = CHR ''b''"
  "char_of (99 :: nat) = CHR ''c''"
  by (simp_all add: char_of_def bit_Suc_0_iff)

lemma processLine_error: "processLine l = Inl e \<Longrightarrow> e = ErrPackedRefsBadFormat"
  by (auto simp: processLine_def Let_def split: if_splits)

lemma loadLines_bad:
  "l \<in> set ls \<Longrightarrow> processLine l = Inl ErrPackedRefsBadFormat \<Longrightarrow>
   fst (loadLines ls cached) = Some ErrPackedRefsBadFormat"
proof (induction ls arbitrary: cached)
  case Nil
  then show ?case by simp
next
  case (Cons a ls)
  show ?case
  proof (cases "processLine a")
    case (Inl e)
    then show ?thesis using processLine_error [OF Inl] by simp
  next
    case (Inr ro)
    with Cons.prems have "l \<in> set ls" by auto
    from Cons.IH [OF this Cons.prems(2)] Inr show ?thesis
      by (cases ro) simp_all
  qed
qed

subsection \<open>Trees, walks and removals\<close>

lemma splitOn_nosep: "sep \<notin> set s \<Longrightarrow> splitOn sep acc s = [rev acc @ s]"
  by (induction s arbitrary: acc) auto

lemma splitOn_sep:
  "sep \<notin> set s \<Longrightarrow> splitOn sep acc (s @ sep # rest) = (rev acc @ s) # splitOn sep [] rest"
  by (induction s arbitrary: acc) auto

lemma Split_Join:
  "p \<noteq> [] \<Longrightarrow> \<forall>n \<in> set p. CHR ''/'' \<notin> set n \<Longrightarrow> splitOn CHR ''/'' [] (Join p) = p"
proof (induction p rule: Join.induct)
  case 1
  then show ?case by simp
next
  case (2 s)
  then show ?case by (simp add: splitOn_nosep)
next
  case (3 s v va)
  then show ?case using splitOn_sep [of "CHR ''/''" s "[]" "Join (v # va)"] by simp
qed

lemma pathOf_Join:
  assumes "p \<noteq> []" "\<forall>n \<in> set p. validName n"
  shows "pathOf (Join p) = p"
proof -
  have "splitOn CHR ''/'' [] (Join p) = p" using assms by (intro Split_Join) auto
  moreover have "filter (\<lambda>s. s \<noteq> [] \<and> s \<noteq> ''.'') p = p" using assms(2) by (induction p) auto
  ultimately show ?thesis by (simp add: pathOf_def Split_def)
qed

lemma wfEntries_iff:
  "wfEntries es = (distinct (map fst es) \<and> (\<forall>(n, x) \<in> set es. validName n \<and> wfNode x))"
  by (induction es) (force simp del: validName.simps)+

lemma filePaths_valid:
  "wfEntries es \<Longrightarrow> p \<in> set (filePaths es) \<Longrightarrow> p \<noteq> [] \<and> (\<forall>n \<in> set p. validName n)"
  by (induction es arbitrary: p rule: filePaths.induct) (auto simp del: validName.simps)

lemma lookup_key:
  assumes "lookupPath (k # ks) es = Inr x"
  shows "k \<in> fst ` set es"
proof -
  from assms obtain y where "map_of es k = Some y" by (cases "map_of es k") auto
  then have "(k, y) \<in> set es" by (rule map_of_SomeD)
  then show ?thesis by force
qed

lemma filePaths_lookup:
  "wfEntries es \<Longrightarrow> (p \<in> set (filePaths es)) = (\<exists>c m. lookupPath p es = Inr (File c m))"
proof (induction es arbitrary: p rule: filePaths.induct)
  case 1
  then show ?case by (cases p) auto
next
  case (2 n c m es)
  then have wf: "wfEntries es" and fresh: "n \<notin> fst ` set es" by simp_all
  note IH = "2.IH" [OF wf]
  show ?case
  proof (cases p)
    case Nil
    then show ?thesis using IH [of "[]"] by simp
  next
    case (Cons k ks)
    show ?thesis
    proof (cases "k = n")
      case True
      have "p \<notin> set (filePaths es)"
        using IH [of p] lookup_key [of k ks es] fresh True Cons by auto
      then show ?thesis using True Cons by auto
    next
      case False
      then show ?thesis using IH [of p] Cons by auto
    qed
  qed
next
  case (3 n ds es)
  then have wf: "wfEntries es" and wfd: "wfEntries ds" and fresh: "n \<notin> fst ` set es"
    by simp_all
  note IHd = "3.IH"(1) [OF wfd] and IHe = "3.IH"(2) [OF wf]
  show ?case
  proof (cases p)
    case Nil
    then show ?thesis using IHe [of "[]"] by auto
  next
    case (Cons k ks)
    show ?thesis
    proof (cases "k = n")
      case True
      have "p \<notin> set (filePaths es)"
        using IHe [of p] lookup_key [of k ks es] fresh True Cons by auto
      then show ?thesis using True Cons IHd [of ks] by auto
    next
      case False
      then show ?thesis using IHe [of p] Cons by auto
    qed
  qed
qed

lemma wf_map_of: "wfEntries fs \<Longrightarrow> map_of fs n = Some x \<Longrightarrow> validName n \<and> wfNode x"
  by (induction fs) (auto simp del: validName.simps split: if_splits)

lemma wf_delete: "wfEntries fs \<Longrightarrow> wfEntries (AList.delete n fs)"
proof (induction fs)
  case Nil
  then show ?case by simp
next
  case (Cons a fs)
  obtain k x where a: "a = (k, x)" by (cases a)
  show ?case using Cons dom_delete_subset [of n fs] a
    by (auto simp del: validName.simps)
qed

lemma wf_update:
  "wfEntries fs \<Longrightarrow> validName n \<Longrightarrow> wfNode x \<Longrightarrow> wfEntries (AList.update n x fs)"
proof (induction fs)
  case Nil
  then show ?case by simp
next
  case (Cons a fs)
  obtain k y where a: "a = (k, y)" by (cases a)
  show ?case using Cons dom_update [of n x fs] a
    by (auto simp del: validName.simps)
qed

lemma wf_append1:
  "wfEntries fs \<Longrightarrow> validName n \<Longrightarrow> wfNode x \<Longrightarrow> n \<notin> fst ` set fs \<Longrightarrow>
   wfEntries (fs @ [(n, x)])"
  by (induction fs) (auto simp del: validName.simps)

lemma wf_removePath: "wfEntries fs \<Longrightarrow> removePath q fs = Inr fs' \<Longrightarrow> wfEntries fs'"
proof (induction q fs arbitrary: fs' rule: removePath.induct)
  case (1 es)
  then show ?case by simp
next
  case (2 n ns es)
  show ?case
  proof (cases "map_of es n")
    case None
    then show ?thesis using "2.prems" by simp
  next
    case (Some x)
    note vx = wf_map_of [OF "2.prems"(1) Some]
    show ?thesis
    proof (cases x)
      case (File c m)
      then show ?thesis using "2.prems" Some wf_delete by (auto split: if_splits)
    next
      case (Dir ds)
      show ?thesis
      proof (cases "ns = []")
        case True
        then show ?thesis using "2.prems" Some Dir wf_delete by (auto split: if_splits)
      next
        case False
        then obtain ds' where r: "removePath ns ds = Inr ds'"
          and fs': "fs' = AList.update n (Dir ds') es"
          using "2.prems" Some Dir by (auto split: sum.splits)
        have "wfEntries ds'" using "2.IH" [OF Some Dir False _ r] vx Dir by simp
        then show ?thesis using fs' wf_update [OF "2.prems"(1)] vx by simp
      qed
    qed
  qed
qed

lemma map_of_None_keys: "map_of fs n = None \<Longrightarrow> n \<notin> fst ` set fs"
  by (simp add: map_of_eq_None_iff)

lemma wf_putFile1:
  assumes "wfEntries fs" "validName n" "putFile [n] c m fs = Inr fs'"
  shows "wfEntries fs'"
proof (cases "map_of fs n")
  case None
  then show ?thesis using assms wf_append1 [OF assms(1,2) _ map_of_None_keys [OF None]]
    by auto
next
  case (Some x)
  then show ?thesis using assms wf_update [OF assms(1,2)]
    by (cases x) auto
qed

lemma lookup_removePath_file:
  "removePath q fs = Inr fs' \<Longrightarrow> lookupPath p fs' = Inr (File c m) \<Longrightarrow>
   lookupPath p fs = Inr (File c m) \<and> p \<noteq> q"
proof (induction q fs arbitrary: fs' p rule: removePath.induct)
  case (1 es)
  then show ?case by simp
next
  case (2 n ns es)
  from "2.prems"(2) obtain k ks where p: "p = k # ks" by (cases p) auto
  show ?case
  proof (cases "map_of es n")
    case None
    then show ?thesis using "2.prems" by simp
  next
    case (Some x)
    show ?thesis
    proof (cases "ns = [] \<or> (\<exists>c m. x = File c m)")
      case True
      then have fs': "fs' = AList.delete n es"
        using "2.prems"(1) Some by (cases x) (auto split: if_splits)
      show ?thesis using "2.prems"(2) p
        by (cases "k = n") (auto simp: fs' delete_conv')
    next
      case False
      then obtain ds where x: "x = Dir ds" and ne: "ns \<noteq> []" by (cases x) auto
      then obtain ds' where r: "removePath ns ds = Inr ds'"
        and fs': "fs' = AList.update n (Dir ds') es"
        using "2.prems" Some by (auto split: sum.splits)
      show ?thesis
      proof (cases "k = n")
        case True
        then have "lookupPath ks ds' = Inr (File c m)"
          using "2.prems"(2) p fs' by (simp add: update_conv')
        from "2.IH" [OF Some x ne r this] show ?thesis using p True Some x by simp
      next
        case False
        then show ?thesis using "2.prems"(2) p fs' by (simp add: update_conv')
      qed
    qed
  qed
qed

lemma removePath_notexist:
  "removePath q fs = Inl ErrNotExist \<Longrightarrow> lookupPath q fs \<noteq> Inr (File c m)"
proof (induction q fs rule: removePath.induct)
  case (1 es)
  then show ?case by simp
next
  case (2 n ns es)
  then show ?case
    by (auto split: option.splits node.splits if_splits sum.splits)
qed

lemma removeLoose_file:
  "removeLoose rs fs = (None, fs') \<Longrightarrow> lookupPath p fs' = Inr (File c m) \<Longrightarrow>
   lookupPath p fs = Inr (File c m) \<and> p \<notin> (\<lambda>r. pathOf (refName r)) ` set rs"
proof (induction rs arbitrary: fs)
  case Nil
  then show ?case by simp
next
  case (Cons r rs)
  show ?case
  proof (cases "removePath (pathOf (refName r)) fs")
    case (Inl e)
    then have e: "e = ErrNotExist" and rest: "removeLoose rs fs = (None, fs')"
      using Cons.prems(1) by (auto split: if_splits)
    from Cons.IH [OF rest Cons.prems(2)] removePath_notexist [of "pathOf (refName r)" fs c m]
    show ?thesis using Inl e by auto
  next
    case (Inr fs1)
    then have rest: "removeLoose rs fs1 = (None, fs')" using Cons.prems(1) by simp
    from Cons.IH [OF rest Cons.prems(2)] lookup_removePath_file [OF Inr, of p c m]
    show ?thesis by auto
  qed
qed

lemma wf_removeLoose:
  "wfEntries fs \<Longrightarrow> removeLoose rs fs = (e, fs') \<Longrightarrow> wfEntries fs'"
proof (induction rs arbitrary: fs)
  case Nil
  then show ?case by simp
next
  case (Cons r rs)
  then show ?case
    by (cases "removePath (pathOf (refName r)) fs") (auto split: if_splits dest: wf_removePath)
qed

lemma refName_read [simp]: "refName (readReferenceFrom c name) = name"
  by (simp add: readReferenceFrom_def NewReferenceFromStrings_def)

lemma walk_nofiles: "filePaths es = [] \<Longrightarrow> walkEntries rel es st = st"
  by (induction rel es st rule: walkEntries.induct) auto

lemma walk_File:
  "walkEntries rel ((n, File c m) # es) st =
   walkEntries rel es (noteRef (readReferenceFrom c (Join (rel @ [n]))) st)"
  by (simp add: noteRef_def Let_def del: refName_read)

lemma noteRef_seenOk: "seenOk st \<Longrightarrow> seenOk (noteRef ref st)"
  by (auto simp: seenOk_def noteRef_def)

lemma noteRef_seen: "snd st \<subseteq> snd (noteRef ref st)" "refName ref \<in> snd (noteRef ref st)"
  by (auto simp: noteRef_def)

lemma noteRef_prefix: "\<exists>xs. fst (noteRef ref st) = fst st @ xs"
  by (auto simp: noteRef_def)

lemma noteRef_mem: "r \<in> set (fst (noteRef ref st)) \<Longrightarrow> r \<in> set (fst st) \<or> r = ref"
  by (auto simp: noteRef_def split: if_splits)

lemma walk_seenOk: "seenOk st \<Longrightarrow> seenOk (walkEntries rel es st)"
proof (induction rel es st rule: walkEntries.induct)
  case (1 relPath st)
  then show ?case by simp
next
  case (2 relPath n c m es st)
  show ?case unfolding walk_File
    using "2.IH" [OF refl, folded noteRef_def] noteRef_seenOk [OF "2.prems"] by simp
next
  case (3 relPath n ds es st)
  then show ?case by simp
qed

lemma walk_prefix: "\<exists>xs. fst (walkEntries rel es st) = fst st @ xs"
proof (induction rel es st rule: walkEntries.induct)
  case (1 relPath st)
  then show ?case by simp
next
  case (2 relPath n c m es st)
  obtain ref where r: "ref = readReferenceFrom c (Join (relPath @ [n]))" by simp
  from "2.IH" [OF r, folded noteRef_def] obtain xs where
    "fst (walkEntries relPath es (noteRef ref st)) = fst (noteRef ref st) @ xs" by blast
  moreover obtain ys where "fst (noteRef ref st) = fst st @ ys" using noteRef_prefix by blast
  ultimately show ?case unfolding walk_File r by simp
next
  case (3 relPath n ds es st)
  from "3.IH"(1) obtain xs where "fst (walkEntries (relPath @ [n]) ds st) = fst st @ xs" by blast
  moreover from "3.IH"(2) obtain ys where
    "fst (walkEntries relPath es (walkEntries (relPath @ [n]) ds st))
      = fst (walkEntries (relPath @ [n]) ds st) @ ys" by blast
  ultimately show ?case by simp
qed

lemma walk_seen_mono: "snd st \<subseteq> snd (walkEntries rel es st)"
proof (induction rel es st rule: walkEntries.induct)
  case (1 relPath st)
  then show ?case by simp
next
  case (2 relPath n c m es st)
  show ?case unfolding walk_File
    using "2.IH" [OF refl, folded noteRef_def] noteRef_seen(1) by blast
next
  case (3 relPath n ds es st)
  then show ?case unfolding walkEntries.simps by blast
qed

lemma walk_covers:
  "p \<in> set (filePaths es) \<Longrightarrow> Join (rel @ p) \<in> snd (walkEntries rel es st)"
proof (induction rel es st arbitrary: p rule: walkEntries.induct)
  case (1 relPath st)
  then show ?case by simp
next
  case (2 relPath n c m es st)
  show ?case
  proof (cases "p = [n]")
    case True
    have "Join (relPath @ [n]) \<in> snd (noteRef (readReferenceFrom c (Join (relPath @ [n]))) st)"
      using noteRef_seen(2) [of "readReferenceFrom c (Join (relPath @ [n]))" st] by simp
    then show ?thesis unfolding walk_File True using walk_seen_mono by blast
  next
    case False
    then have "p \<in> set (filePaths es)" using "2.prems" by simp
    from "2.IH" [OF refl this, folded noteRef_def] show ?thesis unfolding walk_File .
  qed
next
  case (3 relPath n ds es st)
  show ?case
  proof (cases "p \<in> set (filePaths es)")
    case True
    from "3.IH"(2) [OF this] show ?thesis by simp
  next
    case False
    then obtain q where q: "p = n # q" "q \<in> set (filePaths ds)" using "3.prems" by auto
    from "3.IH"(1) [OF q(2)] have "Join (relPath @ p) \<in> snd (walkEntries (relPath @ [n]) ds st)"
      using q(1) by simp
    then show ?thesis unfolding walkEntries.simps using walk_seen_mono by blast
  qed
qed

lemma walk_names:
  "r \<in> set (fst (walkEntries rel es st)) \<Longrightarrow>
   r \<in> set (fst st) \<or> (\<exists>p \<in> set (filePaths es). refName r = Join (rel @ p))"
proof (induction rel es st rule: walkEntries.induct)
  case (1 relPath st)
  then show ?case by simp
next
  case (2 relPath n c m es st)
  define ref where "ref = readReferenceFrom c (Join (relPath @ [n]))"
  have "r \<in> set (fst (walkEntries relPath es (noteRef ref st)))"
    using "2.prems" unfolding walk_File ref_def .
  from "2.IH" [OF ref_def, folded noteRef_def, OF this]
  have "r \<in> set (fst (noteRef ref st)) \<or> (\<exists>p\<in>set (filePaths es). refName r = Join (relPath @ p))" .
  moreover have "r \<in> set (fst (noteRef ref st)) \<Longrightarrow> r \<in> set (fst st) \<or> refName r = Join (relPath @ [n])"
    using noteRef_mem [of r ref st] by (auto simp: ref_def)
  ultimately show ?case by auto
next
  case (3 relPath n ds es st)
  from "3.IH"(2) "3.prems"
  have "r \<in> set (fst (walkEntries (relPath @ [n]) ds st)) \<or>
        (\<exists>p\<in>set (filePaths es). refName r = Join (relPath @ p))" by simp
  moreover have "r \<in> set (fst (walkEntries (relPath @ [n]) ds st)) \<Longrightarrow>
     r \<in> set (fst st) \<or> (\<exists>p\<in>set (filePaths ds). refName r = Join (relPath @ n # p))"
    using "3.IH"(1) by simp
  ultimately show ?case by auto
qed

lemma update_fresh: "k \<notin> fst ` set al \<Longrightarrow> AList.update k v al = al @ [(k, v)]"
  by (induction al) auto

lemma cacheOf_fresh:
  "distinct (map refName rs) \<Longrightarrow> refName ` set rs \<inter> fst ` set cached = {} \<Longrightarrow>
   cacheOf rs cached = cached @ map (\<lambda>r. (refName r, r)) rs"
proof (induction rs arbitrary: cached)
  case Nil
  then show ?case by simp
next
  case (Cons r rs)
  have fresh: "refName r \<notin> fst ` set cached" using Cons.prems(2) by auto
  have "cacheOf rs (cached @ [(refName r, r)]) = (cached @ [(refName r, r)]) @ map (\<lambda>r. (refName r, r)) rs"
    using Cons.prems by (intro Cons.IH) auto
  then show ?case using update_fresh [OF fresh] by simp
qed

lemma addCached_fresh:
  "distinct (map refName rs) \<Longrightarrow> refName ` set rs \<inter> snd st = {} \<Longrightarrow>
   addCached (map (\<lambda>r. (refName r, r)) rs) st = (fst st @ rs, snd st \<union> refName ` set rs)"
proof (induction rs arbitrary: st)
  case Nil
  then show ?case by simp
next
  case (Cons r rs)
  have "addCached (map (\<lambda>r. (refName r, r)) rs) (fst st @ [r], insert (refName r) (snd st))
      = (fst (fst st @ [r], insert (refName r) (snd st)) @ rs,
         snd (fst st @ [r], insert (refName r) (snd st)) \<union> refName ` set rs)"
    using Cons.prems by (intro Cons.IH) auto
  then show ?case using Cons.prems by auto
qed

lemma addCached_seenOk: "keysOk cached \<Longrightarrow> seenOk st \<Longrightarrow> seenOk (addCached cached st)"
proof (induction cached st rule: addCached.induct)
  case (1 st)
  then show ?case by simp
next
  case (2 name ref cs st)
  have k: "keysOk cs" and n: "refName ref = name" using "2.prems"(1) by (auto simp: keysOk_def)
  have "seenOk (if name \<notin> snd st then (fst st @ [ref], insert name (snd st)) else st)"
    using "2.prems"(2) n by (auto simp: seenOk_def)
  from "2.IH" [OF k this] show ?case by simp
qed

lemma addCached_prefix: "\<exists>xs. fst (addCached cached st) = fst st @ xs"
proof (induction cached st rule: addCached.induct)
  case (1 st)
  then show ?case by simp
next
  case (2 name ref cs st)
  then show ?case by (cases "name \<in> snd st") auto
qed

lemma keysOk_update: "keysOk cached \<Longrightarrow> keysOk (AList.update (refName r) r cached)"
proof (induction cached)
  case Nil
  then show ?case by (simp add: keysOk_def)
next
  case (Cons a cached)
  then show ?case by (cases a) (auto simp: keysOk_def)
qed

lemma keysOk_loadLines: "keysOk cached \<Longrightarrow> keysOk (snd (loadLines ls cached))"
proof (induction ls arbitrary: cached)
  case Nil
  then show ?case by simp
next
  case (Cons l ls)
  then show ?case
    by (cases "processLine l") (auto split: option.splits intro: keysOk_update)
qed

lemma keysOk_sync:
  assumes "keysOk (cachedPackedRefs d)"
  shows "keysOk (cachedPackedRefs (snd (syncPackedRefs d)))"
proof -
  have e: "keysOk []" by (simp add: keysOk_def)
  have "\<And>ls. keysOk (snd (loadLines ls []))" using keysOk_loadLines [OF e] .
  then have "\<And>ls e c. loadLines ls [] = (e, c) \<Longrightarrow> keysOk c" by (metis snd_conv)
  then show ?thesis using assms
    by (simp add: syncPackedRefs_def split: sum.splits node.splits prod.splits option.splits)
qed

lemma lookup1:
  "lookupPath [k] es =
     (case map_of es k of None \<Rightarrow> Inl ErrNotExist | Some x \<Rightarrow> Inr x)"
  by (simp split: option.splits node.splits)

lemma sync_root [simp]: "root (snd (syncPackedRefs d)) = root d"
  by (simp add: syncPackedRefs_def split: sum.splits node.splits prod.splits option.splits)

lemma sync_clock [simp]: "clock (snd (syncPackedRefs d)) = clock d"
  by (simp add: syncPackedRefs_def split: sum.splits node.splits prod.splits option.splits)

lemma Refs_fst:
  "fst (Refs d) =
     (case addRefsFromRefDir (root d) ([], {}) of
        Inl e \<Rightarrow> Inl e
      | Inr st \<Rightarrow>
          (case fst (syncPackedRefs d) of
             Some e \<Rightarrow> Inl e
           | None \<Rightarrow> addRefFromHEAD (root d)
                       (fst (addCached (cachedPackedRefs (snd (syncPackedRefs d))) st))))"
proof (cases "addRefsFromRefDir (root d) ([], {})")
  case (Inl e)
  then show ?thesis by (simp add: Refs_def)
next
  case (Inr st)
  obtain e d1 where s: "syncPackedRefs d = (e, d1)" by (cases "syncPackedRefs d")
  have "root d1 = root d" using sync_root [of d] s by simp
  then show ?thesis using Inr s
    by (cases e) (simp_all add: Refs_def addRefsFromPackedRefs_def)
qed

lemma pathOf_HEAD: "pathOf ''HEAD'' = [''HEAD'']"
  by (simp add: pathOf_def Split_def)

lemma addRefFromHEAD_cong:
  "map_of fs ''HEAD'' = map_of fs' ''HEAD'' \<Longrightarrow> addRefFromHEAD fs rs = addRefFromHEAD fs' rs"
  by (simp add: addRefFromHEAD_def readReferenceFile_def pathOf_HEAD lookup1)

lemma addRefsFromRefDir_cong:
  "map_of fs refsPath = map_of fs' refsPath \<Longrightarrow> addRefsFromRefDir fs st = addRefsFromRefDir fs' st"
  by (simp add: addRefsFromRefDir_def lookup1)

lemma sync_cong:
  "map_of (root d) packedRefsPath = map_of (root d') packedRefsPath \<Longrightarrow>
   cachedPackedRefs d = cachedPackedRefs d' \<Longrightarrow> packedRefsLastMod d = packedRefsLastMod d' \<Longrightarrow>
   fst (syncPackedRefs d) = fst (syncPackedRefs d') \<and>
   cachedPackedRefs (snd (syncPackedRefs d)) = cachedPackedRefs (snd (syncPackedRefs d'))"
  by (simp add: syncPackedRefs_def lookup1 split: sum.splits node.splits prod.splits option.splits)

lemma Refs_cong:
  assumes "map_of (root d) refsPath = map_of (root d') refsPath"
    and "map_of (root d) ''HEAD'' = map_of (root d') ''HEAD''"
    and "map_of (root d) packedRefsPath = map_of (root d') packedRefsPath"
    and "cachedPackedRefs d = cachedPackedRefs d'" "packedRefsLastMod d = packedRefsLastMod d'"
  shows "fst (Refs d) = fst (Refs d')"
  unfolding Refs_fst
  using addRefsFromRefDir_cong [OF assms(1)] addRefFromHEAD_cong [OF assms(2)]
    sync_cong [OF assms(3,4,5)]
  by (simp split: sum.splits option.splits)

lemma scanLines_empty: "scanLines [] = ([], None)"
  by (simp add: scanLines_def)

text \<open>Creating an empty packed-refs file does not change what Refs returns.\<close>

lemma Refs_created:
  assumes "lookupPath [packedRefsPath] (root d) = Inl ErrNotExist" "cachedPackedRefs d = []"
  shows "fst (Refs (d\<lparr>root := root d @ [(packedRefsPath, File [] t)]\<rparr>)) = fst (Refs d)"
proof -
  let ?d0 = "d\<lparr>root := root d @ [(packedRefsPath, File [] t)]\<rparr>"
  have none: "map_of (root d) packedRefsPath = None"
    using assms(1) unfolding lookup1 by (simp split: option.splits)
  have s: "syncPackedRefs d = (None, d)" using assms(1) by (simp add: syncPackedRefs_def)
  have l0: "lookupPath [packedRefsPath] (root d @ [(packedRefsPath, File [] t)]) = Inr (File [] t)"
    using none by (simp add: lookup1 map_add_def del: lookupPath.simps)
  have s0: "fst (syncPackedRefs ?d0) = None \<and> cachedPackedRefs (snd (syncPackedRefs ?d0)) = []"
    using assms(2) by (simp add: syncPackedRefs_def l0 scanLines_empty del: lookupPath.simps)
  have r: "addRefsFromRefDir (root ?d0) ([], {}) = addRefsFromRefDir (root d) ([], {})"
    by (rule addRefsFromRefDir_cong)
       (simp add: refsPath_def packedRefsPath_def map_add_def split: option.splits)
  have h: "\<And>rs. addRefFromHEAD (root ?d0) rs = addRefFromHEAD (root d) rs"
    by (rule addRefFromHEAD_cong) (simp add: packedRefsPath_def map_add_def split: option.splits)
  show ?thesis unfolding Refs_fst using s s0 r h assms(2)
    by (simp split: sum.splits)
qed

lemma openFile_packed:
  assumes "openFile [packedRefsPath] False d = Inr (b, d0)"
  shows "(\<exists>m. lookupPath [packedRefsPath] (root d) = Inr (File b m) \<and> d0 = d) \<or>
         (lookupPath [packedRefsPath] (root d) = Inl ErrNotExist \<and>
          d0 = d\<lparr>root := root d @ [(packedRefsPath, File [] (clock d))]\<rparr>)"
proof (cases "map_of (root d) packedRefsPath")
  case None
  then show ?thesis using assms by (auto simp: openFile_def)
next
  case (Some x)
  then show ?thesis using assms by (cases x) (auto simp: openFile_def)
qed

lemma validName_packed: "validName packedRefsPath"
  by (simp add: packedRefsPath_def)

lemma validName_refs: "validName refsPath"
  by (simp add: refsPath_def)

lemma PackRefs_cases:
  assumes "PackRefs d now = (None, d')"
  obtains (noLoose) b d0 st where
      "openFile [packedRefsPath] False d = Inr (b, d0)"
      "addRefsFromRefDir (root d0) ([], {}) = Inr st" "fst st = []" "d' = d0"
  | (packed) b d0 st d1 fs1 fs2 where
      "openFile [packedRefsPath] False d = Inr (b, d0)"
      "addRefsFromRefDir (root d0) ([], {}) = Inr st" "fst st \<noteq> []"
      "syncPackedRefs d0 = (None, d1)"
      "putFile [packedRefsPath] (refLines (fst (addCached (cachedPackedRefs d1) st)))
          (clock d1) (root d1) = Inr fs1"
      "removeLoose (take (length (fst st)) (fst (addCached (cachedPackedRefs d1) st))) fs1
          = (None, fs2)"
      "d' = d1\<lparr>root := fs2,
                cachedPackedRefs := cacheOf (fst (addCached (cachedPackedRefs d1) st)) [],
                packedRefsLastMod := now\<rparr>"
proof -
  from assms obtain b d0 where o: "openFile [packedRefsPath] False d = Inr (b, d0)"
    by (cases "openFile [packedRefsPath] False d") (auto simp: PackRefs_def)
  from assms o obtain st where w: "addRefsFromRefDir (root d0) ([], {}) = Inr st"
    by (cases "addRefsFromRefDir (root d0) ([], {})") (auto simp: PackRefs_def)
  show thesis
  proof (cases "fst st = []")
    case True
    then have "d' = d0" using assms o w by (simp add: PackRefs_def)
    with o w True show thesis by (rule noLoose)
  next
    case False
    obtain e d1 where s: "syncPackedRefs d0 = (e, d1)" by (cases "syncPackedRefs d0")
    have e: "e = None" using assms o w False s
      by (cases e) (simp_all add: PackRefs_def addRefsFromPackedRefs_def Let_def)
    let ?refs = "fst (addCached (cachedPackedRefs d1) st)"
    obtain fs1 where p: "putFile [packedRefsPath] (refLines ?refs) (clock d1) (root d1) = Inr fs1"
      using assms o w False s e
      by (cases "putFile [packedRefsPath] (refLines ?refs) (clock d1) (root d1)")
         (simp_all add: PackRefs_def addRefsFromPackedRefs_def Let_def)
    obtain e2 fs2 where r: "removeLoose (take (length (fst st)) ?refs) fs1 = (e2, fs2)"
      by (cases "removeLoose (take (length (fst st)) ?refs) fs1")
    have e2: "e2 = None" using assms o w False s e p r
      by (cases e2) (simp_all add: PackRefs_def addRefsFromPackedRefs_def Let_def)
    have "d' = d1\<lparr>root := fs2, cachedPackedRefs := cacheOf ?refs [],
                packedRefsLastMod := now\<rparr>"
      using assms o w False s e p r e2
      by (simp add: PackRefs_def addRefsFromPackedRefs_def Let_def)
    with o w False s [unfolded e] p r [unfolded e2] show thesis by (rule packed)
  qed
qed

lemma seenOk_empty: "seenOk ([], {})"
  by (simp add: seenOk_def)

lemma lookup_Dir_wf:
  assumes "wfEntries fs" "lookupPath [k] fs = Inr (Dir es)"
  shows "wfEntries es" "validName k"
proof -
  have "map_of fs k = Some (Dir es)" using assms(2) unfolding lookup1 by (simp split: option.splits)
  from wf_map_of [OF assms(1) this] show "wfEntries es" "validName k" by simp_all
qed

lemma loose_paths:
  assumes "wfEntries fs" "lookupPath [refsPath] fs = Inr (Dir es)"
    and "r \<in> set (fst (walkEntries [refsPath] es ([], {})))"
  shows "\<exists>p \<in> set (filePaths es). pathOf (refName r) = refsPath # p"
proof -
  from walk_names [OF assms(3)] obtain p where p: "p \<in> set (filePaths es)"
    and n: "refName r = Join ([refsPath] @ p)" by auto
  have "\<forall>n \<in> set (refsPath # p). validName n"
    using filePaths_valid [OF lookup_Dir_wf(1) [OF assms(1,2)] p] validName_refs by simp
  then have "pathOf (Join (refsPath # p)) = refsPath # p" by (intro pathOf_Join) simp_all
  then show ?thesis using p n by auto
qed

lemma removePath_other:
  "removePath (n # ns) fs = Inr fs' \<Longrightarrow> k \<noteq> n \<Longrightarrow> map_of fs' k = map_of fs k"
  by (auto simp: delete_conv' update_conv' split: option.splits node.splits if_splits sum.splits)

lemma removeLoose_other:
  "\<forall>r \<in> set rs. \<exists>p. pathOf (refName r) = n # p \<Longrightarrow> removeLoose rs fs = (None, fs') \<Longrightarrow>
   k \<noteq> n \<Longrightarrow> map_of fs' k = map_of fs k"
proof (induction rs arbitrary: fs)
  case Nil
  then show ?case by simp
next
  case (Cons r rs)
  from Cons.prems(1) obtain p where p: "pathOf (refName r) = n # p" by auto
  have rest: "\<forall>r \<in> set rs. \<exists>p. pathOf (refName r) = n # p" using Cons.prems(1) by simp
  show ?case
  proof (cases "removePath (n # p) fs")
    case (Inl e)
    then have "removeLoose rs fs = (None, fs')" using Cons.prems(2) p by (auto split: if_splits)
    from Cons.IH [OF rest this Cons.prems(3)] show ?thesis .
  next
    case (Inr fs1)
    then have "removeLoose rs fs1 = (None, fs')" using Cons.prems(2) p by simp
    from Cons.IH [OF rest this Cons.prems(3)] removePath_other [OF Inr Cons.prems(3)]
    show ?thesis by simp
  qed
qed

lemma no_loose_after:
  assumes wf: "wfEntries fs1" and dir: "lookupPath [refsPath] fs1 = Inr (Dir es)"
    and rm: "removeLoose (fst (walkEntries [refsPath] es ([], {}))) fs1 = (None, fs2)"
  shows "addRefsFromRefDir fs2 ([], {}) = Inr ([], {})"
proof -
  let ?st = "walkEntries [refsPath] es ([], {})"
  have wf2: "wfEntries fs2" using wf_removeLoose [OF wf rm] .
  have wfes: "wfEntries es" using lookup_Dir_wf(1) [OF wf dir] .
  have seen: "snd ?st = refName ` set (fst ?st)"
    using walk_seenOk [OF seenOk_empty] by (simp add: seenOk_def)
  show ?thesis
  proof (cases "map_of fs2 refsPath")
    case None
    then show ?thesis by (simp add: addRefsFromRefDir_def lookup1 del: lookupPath.simps)
  next
    case (Some x)
    show ?thesis
    proof (cases x)
      case (File c m)
      then have "lookupPath [refsPath] fs2 = Inr (File c m)" using Some by simp
      from removeLoose_file [OF rm this] dir show ?thesis by simp
    next
      case (Dir es2)
      have l2: "lookupPath [refsPath] fs2 = Inr (Dir es2)" using Some Dir by simp
      have wfes2: "wfEntries es2" using lookup_Dir_wf(1) [OF wf2 l2] .
      have "filePaths es2 = []"
      proof (rule ccontr)
        assume "filePaths es2 \<noteq> []"
        then obtain p where p: "p \<in> set (filePaths es2)" by (cases "filePaths es2") auto
        then obtain c m where f2: "lookupPath p es2 = Inr (File c m)"
          using filePaths_lookup [OF wfes2] by auto
        have pne: "p \<noteq> []" using filePaths_valid [OF wfes2 p] by simp
        have "lookupPath (refsPath # p) fs2 = Inr (File c m)" using f2 Some Dir pne by simp
        from removeLoose_file [OF rm this]
        have f1: "lookupPath (refsPath # p) fs1 = Inr (File c m)"
          and notrm: "refsPath # p \<notin> (\<lambda>r. pathOf (refName r)) ` set (fst ?st)" by simp_all
        have m1: "map_of fs1 refsPath = Some (Dir es)"
          using dir unfolding lookup1 by (simp split: option.splits)
        have "lookupPath p es = Inr (File c m)" using f1 m1 pne by simp
        then have pin: "p \<in> set (filePaths es)" using filePaths_lookup [OF wfes] by auto
        from walk_covers [OF this, of "[refsPath]" "([], {})"]
        have "Join (refsPath # p) \<in> refName ` set (fst ?st)" using seen by simp
        then obtain r where r: "r \<in> set (fst ?st)" "refName r = Join (refsPath # p)" by auto
        have "\<forall>n \<in> set (refsPath # p). validName n"
          using filePaths_valid [OF wfes pin] validName_refs by simp
        then have "pathOf (Join (refsPath # p)) = refsPath # p" by (intro pathOf_Join) simp_all
        then have "refsPath # p \<in> (\<lambda>r. pathOf (refName r)) ` set (fst ?st)"
          using r by (metis image_eqI)
        with notrm show False by simp
      qed
      then show ?thesis using l2 walk_nofiles
        by (simp add: addRefsFromRefDir_def del: lookupPath.simps)
    qed
  qed
qed

lemma opened_state:
  assumes wf: "wfManager d" and o: "openFile [packedRefsPath] False d = Inr (b, d0)"
  shows "wfEntries (root d0)" "keysOk (cachedPackedRefs d0)" "fst (Refs d0) = fst (Refs d)"
    "\<exists>c m. lookupPath [packedRefsPath] (root d0) = Inr (File c m)" "clock d0 = clock d"
proof -
  from openFile_packed [OF o] consider
      (there) m where "lookupPath [packedRefsPath] (root d) = Inr (File b m)" "d0 = d"
    | (created) "lookupPath [packedRefsPath] (root d) = Inl ErrNotExist"
        "d0 = d\<lparr>root := root d @ [(packedRefsPath, File [] (clock d))]\<rparr>"
    by blast
  then have "wfEntries (root d0) \<and> keysOk (cachedPackedRefs d0) \<and> fst (Refs d0) = fst (Refs d) \<and>
    (\<exists>c m. lookupPath [packedRefsPath] (root d0) = Inr (File c m)) \<and> clock d0 = clock d"
  proof cases
    case there
    then show ?thesis using wf by (simp add: wfManager_def)
  next
    case created
    have none: "map_of (root d) packedRefsPath = None"
      using created(1) unfolding lookup1 by (simp split: option.splits)
    have "wfEntries (root d @ [(packedRefsPath, File [] (clock d))])"
      using wf validName_packed map_of_None_keys [OF none]
      by (intro wf_append1) (simp_all add: wfManager_def)
    moreover have "fst (Refs d0) = fst (Refs d)"
      using Refs_created [OF created(1)] wf created by (simp add: wfManager_def)
    moreover have "lookupPath [packedRefsPath] (root d @ [(packedRefsPath, File [] (clock d))])
        = Inr (File [] (clock d))"
      using none by (simp add: lookup1 map_add_def del: lookupPath.simps)
    ultimately show ?thesis using wf created(2) by (simp add: wfManager_def)
  qed
  then show "wfEntries (root d0)" "keysOk (cachedPackedRefs d0)" "fst (Refs d0) = fst (Refs d)"
    "\<exists>c m. lookupPath [packedRefsPath] (root d0) = Inr (File c m)" "clock d0 = clock d"
    by simp_all
qed

lemma packedRef_root: "root (snd (packedRef d n)) = root d"
proof -
  obtain e d1 where s: "syncPackedRefs d = (e, d1)" by (cases "syncPackedRefs d")
  then have "root d1 = root d" using sync_root [of d] by simp
  then show ?thesis using s by (cases e) (simp_all add: packedRef_def split: option.splits)
qed

text \<open>
  A new manager over a well-formed tree is well-formed, and reading packed-refs keeps
  it so.
\<close>

lemma wfManager_New: "wfEntries fs \<Longrightarrow> wfManager (New fs t)"
  by (simp add: wfManager_def New_def keysOk_def)

lemma wfManager_sync:
  assumes "wfManager d"
  shows "wfManager (snd (syncPackedRefs d))"
proof (cases "lookupPath [packedRefsPath] (root d) = Inl ErrNotExist")
  case True
  then have "syncPackedRefs d = (None, d)" by (simp add: syncPackedRefs_def)
  then show ?thesis using assms by simp
next
  case False
  then show ?thesis using assms keysOk_sync [of d] sync_root [of d]
    by (simp add: wfManager_def)
qed

text \<open>
  The source ranges over the Go map of the cache in an order that Go leaves open. The
  references added from the cache are the same set for every order of its entries, their
  keys being distinct.
\<close>

lemma addCached_set:
  "distinct (map fst c) \<Longrightarrow>
   set (fst (addCached c st)) = set (fst st) \<union> {r. \<exists>k. (k, r) \<in> set c \<and> k \<notin> snd st}"
proof (induction c st rule: addCached.induct)
  case (1 st)
  then show ?case by simp
next
  case (2 name ref cs st)
  then have d: "distinct (map fst cs)" and fresh: "name \<notin> fst ` set cs" by simp_all
  have nk: "\<And>r. (name, r) \<notin> set cs" using fresh by force
  show ?case
  proof (cases "name \<in> snd st")
    case True
    then show ?thesis using "2.IH" [OF d] by auto
  next
    case False
    have "set (fst (addCached ((name, ref) # cs) st))
        = set (fst st @ [ref]) \<union> {r. \<exists>k. (k, r) \<in> set cs \<and> k \<notin> insert name (snd st)}"
      using "2.IH" [OF d] False by simp
    also have "\<dots> = set (fst st) \<union> {r. \<exists>k. (k, r) \<in> set ((name, ref) # cs) \<and> k \<notin> snd st}"
      using False nk by auto
    finally show ?thesis .
  qed
qed

lemma addCached_any_order:
  assumes "distinct (map fst c)" "distinct (map fst c')" "set c' = set c"
  shows "set (fst (addCached c' st)) = set (fst (addCached c st))"
  using addCached_set [OF assms(1)] addCached_set [OF assms(2)] assms(3) by simp

lemma splitOn_nosep_elems:
  "sep \<notin> set acc \<Longrightarrow> s \<in> set (splitOn sep acc cs) \<Longrightarrow> sep \<notin> set s"
proof (induction cs arbitrary: acc)
  case Nil
  then show ?case by simp
next
  case (Cons c cs)
  show ?case
  proof (cases "c = sep")
    case True
    then have "s = rev acc \<or> s \<in> set (splitOn sep [] cs)" using Cons.prems(2) by simp
    then show ?thesis using Cons.prems(1) Cons.IH [of "[]"] by auto
  next
    case False
    then have "s \<in> set (splitOn sep (c # acc) cs)" using Cons.prems(2) by simp
    then show ?thesis using Cons.IH [of "c # acc"] Cons.prems(1) False by simp
  qed
qed

lemma pathOf_valid: "\<forall>n \<in> set (pathOf name). validName n"
  using splitOn_nosep_elems [of "CHR ''/''" "[]" _ name] by (auto simp: pathOf_def Split_def)

lemma wf_putFile:
  "wfEntries fs \<Longrightarrow> \<forall>n \<in> set p. validName n \<Longrightarrow> putFile p c m fs = Inr fs' \<Longrightarrow> wfEntries fs'"
proof (induction p c m fs arbitrary: fs' rule: putFile.induct)
  case (1 c m es)
  then show ?case by simp
next
  case (2 n ns c m es)
  have vn: "validName n" and vns: "\<forall>k \<in> set ns. validName k" using "2.prems"(2) by simp_all
  show ?case
  proof (cases "map_of es n")
    case None
    note fresh = map_of_None_keys [OF None]
    show ?thesis
    proof (cases "ns = []")
      case True
      then show ?thesis using "2.prems" None wf_append1 [OF "2.prems"(1) vn _ fresh] by auto
    next
      case False
      then obtain ds' where r: "putFile ns c m [] = Inr ds'" and fs': "fs' = es @ [(n, Dir ds')]"
        using "2.prems"(3) None by (auto split: sum.splits)
      have "wfEntries ds'" using "2.IH"(1) [OF None False _ vns r] by simp
      then show ?thesis using fs' wf_append1 [OF "2.prems"(1) vn _ fresh] by simp
    qed
  next
    case (Some x)
    show ?thesis
    proof (cases x)
      case (File c0 m0)
      then show ?thesis using "2.prems" Some wf_update [OF "2.prems"(1) vn]
        by (auto split: if_splits)
    next
      case (Dir ds)
      then have ne: "ns \<noteq> []" using "2.prems"(3) Some by auto
      then obtain ds' where r: "putFile ns c m ds = Inr ds'"
        and fs': "fs' = AList.update n (Dir ds') es"
        using "2.prems"(3) Some Dir by (auto split: sum.splits)
      have "wfEntries ds" using wf_map_of [OF "2.prems"(1) Some] Dir by simp
      then have "wfEntries ds'" using "2.IH"(2) [OF Some Dir ne _ vns r] by simp
      then show ?thesis using fs' wf_update [OF "2.prems"(1) vn] by simp
    qed
  qed
qed

lemma putFile_exists:
  "putFile p c m fs = Inr fs' \<Longrightarrow> lookupPath q fs' = Inl ErrNotExist \<Longrightarrow>
   lookupPath q fs = Inl ErrNotExist"
proof (induction p c m fs arbitrary: fs' q rule: putFile.induct)
  case (1 c m es)
  then show ?case by simp
next
  case (2 n ns c m es)
  show ?case
  proof (cases q)
    case Nil
    then show ?thesis using "2.prems" by simp
  next
    case (Cons k ks)
    show ?thesis
    proof (cases "map_of es n")
      case None
      then have "\<exists>x. fs' = es @ [(n, x)]" using "2.prems"(1) by (auto split: if_splits sum.splits)
      then obtain x where fs': "fs' = es @ [(n, x)]" by blast
      show ?thesis using "2.prems"(2) Cons None
        by (cases "map_of es k") (auto simp: fs' map_add_def split: option.splits node.splits if_splits)
    next
      case (Some x)
      show ?thesis
      proof (cases x)
        case (File c0 m0)
        then have fs': "fs' = AList.update n (File c m) es"
          using "2.prems"(1) Some by (auto split: if_splits)
        show ?thesis using "2.prems"(2) Cons Some File
          by (cases "k = n") (auto simp: fs' update_conv' split: option.splits node.splits if_splits)
      next
        case (Dir ds)
        then have ne: "ns \<noteq> []" using "2.prems"(1) Some by auto
        then obtain ds' where r: "putFile ns c m ds = Inr ds'"
          and fs': "fs' = AList.update n (Dir ds') es"
          using "2.prems"(1) Some Dir by (auto split: sum.splits)
        show ?thesis
        proof (cases "k = n")
          case True
          then have "lookupPath ks ds' = Inl ErrNotExist"
            using "2.prems"(2) Cons fs' by (simp add: update_conv')
          from "2.IH"(2) [OF Some Dir ne r this] show ?thesis using Cons True Some Dir by simp
        next
          case False
          then show ?thesis using "2.prems"(2) Cons fs' by (simp add: update_conv')
        qed
      qed
    qed
  qed
qed

text \<open>The operations of the manager keep a well-formed manager well-formed.\<close>

lemma wfManager_put:
  assumes "wfManager d" "putFile p c m (root d) = Inr fs" "\<forall>n \<in> set p. validName n"
  shows "wfManager (d\<lparr>root := fs\<rparr>)"
proof -
  have w: "wfEntries fs" using wf_putFile [OF _ assms(3) assms(2)] assms(1)
    by (simp add: wfManager_def)
  have "lookupPath [packedRefsPath] fs = Inl ErrNotExist \<longrightarrow> cachedPackedRefs d = []"
    using putFile_exists [OF assms(2)] assms(1) unfolding wfManager_def by blast
  then show ?thesis using w assms(1) by (simp add: wfManager_def del: lookupPath.simps)
qed

lemma wfManager_openFile:
  assumes "wfManager d" "openFile p trunc d = Inr (b, d')" "\<forall>n \<in> set p. validName n"
  shows "wfManager d'"
proof -
  have "d' = d \<or> (\<exists>fs. putFile p [] (clock d) (root d) = Inr fs \<and> d' = d\<lparr>root := fs\<rparr>)"
    using assms(2) by (auto simp: openFile_def split: sum.splits node.splits if_splits)
  then show ?thesis using assms(1) wfManager_put [OF assms(1) _ assms(3)] by auto
qed

lemma wfManager_packedRef: "wfManager d \<Longrightarrow> wfManager (snd (packedRef d n))"
  using wfManager_sync [of d]
  by (auto simp: packedRef_def split: prod.splits option.splits)

lemma wfManager_Refs: "wfManager d \<Longrightarrow> wfManager (snd (Refs d))"
  using wfManager_sync [of d]
  by (auto simp: Refs_def addRefsFromPackedRefs_def split: sum.splits prod.splits option.splits)

lemma wfManager_checkReference:
  assumes "wfManager d"
  shows "wfManager (snd (checkReference d b old))"
proof (cases old)
  case None
  then show ?thesis using assms by (simp add: checkReference_def)
next
  case (Some oldref)
  obtain pr d1 where p: "packedRef d (refName oldref) = (pr, d1)"
    by (cases "packedRef d (refName oldref)")
  have "wfManager d1" using wfManager_packedRef [OF assms, of "refName oldref"] p by simp
  then show ?thesis using assms Some p
    by (cases pr) (simp_all add: checkReference_def Let_def)
qed

lemma wfManager_SetRef:
  assumes "wfManager d"
  shows "wfManager (snd (SetRef d r old))"
proof (cases "openFile (pathOf (refName r)) (old = None) d")
  case (Inl e)
  then show ?thesis using assms by (simp add: SetRef_def)
next
  case (Inr x)
  obtain b d1 where x: "x = (b, d1)" by (cases x)
  have w1: "wfManager d1" using wfManager_openFile [OF assms Inr [unfolded x] pathOf_valid] .
  obtain e d2 where c: "checkReference d1 b old = (e, d2)" by (cases "checkReference d1 b old")
  have w2: "wfManager d2" using wfManager_checkReference [OF w1, of b old] c by simp
  show ?thesis
  proof (cases e)
    case (Some a)
    then show ?thesis using Inr x c w2 by (simp add: SetRef_def)
  next
    case None
    show ?thesis
    proof (cases "putFile (pathOf (refName r)) (refContent r) (clock d2) (root d2)")
      case (Inl e')
      then show ?thesis using Inr x c None w2 by (simp add: SetRef_def)
    next
      case (Inr fs)
      then show ?thesis using \<open>openFile (pathOf (refName r)) (old = None) d = Inr x\<close> x c None
          wfManager_put [OF w2 Inr pathOf_valid]
        by (simp add: SetRef_def)
    qed
  qed
qed

text \<open>
  A successful \<open>PackRefs\<close> as the manager that ran it sees it: \<open>Refs\<close> returns what it
  returned before and no loose reference is left. This is about the cache that
  \<open>PackRefs\<close> has filled, not about the file it has written: with the time stamp of the
  cache not before the time of the write, the file is not read.
\<close>

lemma PackRefs_success:
  assumes wf: "wfManager d" and later: "clock d \<le> now" and pr: "PackRefs d now = (None, d')"
  shows "fst (Refs d') = fst (Refs d) \<and> CountLooseRefs d' = Inr 0 \<and> wfManager d'"
proof (rule PackRefs_cases [OF pr], goal_cases)
  case noLoose: (1 b d0 st)
  have "fst (Refs d') = fst (Refs d)" using opened_state(3) [OF wf noLoose(1)] noLoose(4) by simp
  moreover have "CountLooseRefs d' = Inr 0"
    using noLoose(2,3,4) by (simp add: CountLooseRefs_def)
  moreover have "wfManager d'"
    using opened_state(1,2,4) [OF wf noLoose(1)] noLoose(4) by (auto simp: wfManager_def)
  ultimately show ?thesis by simp
next
  case packed: (2 b d0 st d1 fs1 fs2)
  note os = opened_state [OF wf packed(1)]
  let ?refs = "fst (addCached (cachedPackedRefs d1) st)"
  have root1: "root d1 = root d0" and clock1: "clock d1 = clock d0"
    using sync_root [of d0] sync_clock [of d0] packed(4) by simp_all
  have k1: "keysOk (cachedPackedRefs d1)" using keysOk_sync [OF os(2)] packed(4) by simp
  obtain es where dir: "lookupPath [refsPath] (root d0) = Inr (Dir es)"
    and st: "st = walkEntries [refsPath] es ([], {})"
    using packed(2,3)
    by (auto simp: addRefsFromRefDir_def split: sum.splits node.splits if_splits)
  have sst: "seenOk st" unfolding st by (rule walk_seenOk [OF seenOk_empty])
  have srefs: "seenOk (addCached (cachedPackedRefs d1) st)" by (rule addCached_seenOk [OF k1 sst])
  then have dist: "distinct (map refName ?refs)" by (simp add: seenOk_def)
  obtain xs where "?refs = fst st @ xs" using addCached_prefix by blast
  then have tk: "take (length (fst st)) ?refs = fst st" by simp
  from os(4) obtain c0 m0 where pf: "lookupPath [packedRefsPath] (root d0) = Inr (File c0 m0)"
    by blast
  then have mp: "map_of (root d0) packedRefsPath = Some (File c0 m0)"
    unfolding lookup1 by (simp split: option.splits)
  have fs1: "fs1 = AList.update packedRefsPath (File (refLines ?refs) (clock d0)) (root d0)"
    using packed(5) mp root1 clock1 by simp
  have wf1: "wfEntries fs1" unfolding fs1 using os(1) validName_packed by (intro wf_update) simp_all
  have ne: "packedRefsPath \<noteq> refsPath" by (simp add: packedRefsPath_def refsPath_def)
  have dir1: "lookupPath [refsPath] fs1 = Inr (Dir es)"
    using dir ne unfolding lookup1 fs1 by (simp add: update_conv')
  have rm: "removeLoose (fst (walkEntries [refsPath] es ([], {}))) fs1 = (None, fs2)"
    using packed(6) tk st by simp
  have a: "addRefsFromRefDir fs2 ([], {}) = Inr ([], {})" by (rule no_loose_after [OF wf1 dir1 rm])
  have paths: "\<forall>r \<in> set (fst (walkEntries [refsPath] es ([], {}))). \<exists>p. pathOf (refName r) = refsPath # p"
    using loose_paths [OF os(1) dir] by blast
  have other: "\<And>k. k \<noteq> refsPath \<Longrightarrow> map_of fs2 k = map_of fs1 k"
    using removeLoose_other [OF paths rm] .
  have pf2: "lookupPath [packedRefsPath] fs2 = Inr (File (refLines ?refs) (clock d0))"
    unfolding lookup1 using other [OF ne] by (simp add: fs1 update_conv')
  have head2: "map_of fs2 ''HEAD'' = map_of (root d0) ''HEAD''"
    using other [of "''HEAD''"] by (simp add: fs1 update_conv' refsPath_def packedRefsPath_def)
  have d': "root d' = fs2" "cachedPackedRefs d' = cacheOf ?refs []" "packedRefsLastMod d' = now"
    using packed(7) by simp_all
  have notnewer: "\<not> now < clock d0" using later os(5) by simp
  have sync': "syncPackedRefs d' = (None, d')"
    using pf2 d' notnewer by (simp add: syncPackedRefs_def del: lookupPath.simps)
  have co: "cacheOf ?refs [] = map (\<lambda>r. (refName r, r)) ?refs"
    using cacheOf_fresh [OF dist, of "[]"] by simp
  moreover have "addCached (map (\<lambda>r. (refName r, r)) ?refs) ([], {})
      = (?refs, refName ` set ?refs)"
    using addCached_fresh [OF dist, of "([], {})"] by simp
  ultimately have c: "fst (addCached (cachedPackedRefs d') ([], {})) = ?refs" using d'(2) by simp
  have "fst (Refs d') = addRefFromHEAD fs2 ?refs"
    unfolding Refs_fst using a sync' c d'(1) by simp
  also have "\<dots> = addRefFromHEAD (root d0) ?refs" by (rule addRefFromHEAD_cong [OF head2])
  also have "\<dots> = fst (Refs d0)" unfolding Refs_fst using packed(2,4) by simp
  finally have "fst (Refs d') = fst (Refs d)" using os(3) by simp
  moreover have "CountLooseRefs d' = Inr 0" using a d'(1) by (simp add: CountLooseRefs_def)
  moreover have "wfManager d'"
    using wf_removeLoose [OF wf1 rm] d' pf2 co by (simp add: wfManager_def keysOk_def)
  ultimately show ?thesis by simp
qed

lemma wfManager_SetPackedRefs:
  assumes "wfManager d"
  shows "wfManager (snd (SetPackedRefs d refs))"
proof (cases "openFile [tmpPackedRefsPrefix] True d")
  case (Inl e)
  then show ?thesis using assms by (simp add: SetPackedRefs_def)
next
  case (Inr x)
  obtain lb d1 where x: "x = (lb, d1)" by (cases x)
  have v1: "\<forall>n \<in> set [tmpPackedRefsPrefix]. validName n" by (simp add: tmpPackedRefsPrefix_def)
  have v2: "\<forall>n \<in> set [packedRefsPath]. validName n" using validName_packed by simp
  have w1: "wfManager d1" using wfManager_openFile [OF assms Inr [unfolded x] v1] .
  show ?thesis
  proof (cases "openFile [packedRefsPath] True d1")
    case (Inl e)
    then show ?thesis using Inr x w1 by (simp add: SetPackedRefs_def)
  next
    case inner: (Inr y)
    obtain buf d2 where y: "y = (buf, d2)" by (cases y)
    have w2: "wfManager d2" using wfManager_openFile [OF w1 inner [unfolded y] v2] .
    show ?thesis
    proof (cases "putFile [packedRefsPath] (refLines refs) (clock d2) (root d2)")
      case (Inl e)
      then show ?thesis using Inr x inner y w2 by (simp add: SetPackedRefs_def)
    next
      case put: (Inr fs)
      show ?thesis using Inr x inner y w2 put wfManager_put [OF w2 put v2]
        by (simp add: SetPackedRefs_def)
    qed
  qed
qed

lemma wfManager_PackRefs:
  "wfManager d \<Longrightarrow> clock d \<le> now \<Longrightarrow> PackRefs d now = (None, d') \<Longrightarrow> wfManager d'"
  using PackRefs_success by blast

text \<open>
  Apart from the slice of a short name, \<open>packHashes\<close> returns: names of ten bytes or
  more that end in \<open>.pack\<close> are sliced within bounds, shorter ones are not.
\<close>

lemma packHashes_total:
  "\<forall>n \<in> set ns. hasSuffix n packExt \<longrightarrow> 10 \<le> length n \<Longrightarrow> \<exists>hs. packHashes ns packs = Inr hs"
proof (induction ns arbitrary: packs)
  case Nil
  then show ?case by simp
next
  case (Cons n ns)
  then show ?case by (cases "hasSuffix n packExt") (auto simp: goSlice_def)
qed

lemma packHashes_short:
  "hasSuffix n packExt \<Longrightarrow> length n < 10 \<Longrightarrow> packHashes (n # ns) packs = Inl PanicSliceBounds"
  by (simp add: goSlice_def)

text \<open>
  What \<open>Refs\<close> returns is the loose references, then the packed ones under other
  names, all names distinct, and then the \<open>HEAD\<close> file, if there is one.
\<close>

lemma Refs_unique_apart_from_HEAD:
  assumes wf: "wfManager d" and loose: "addRefsFromRefDir (root d) ([], {}) = Inr st"
    and res: "fst (Refs d) = Inr rs"
  shows "\<exists>extra hd. rs = fst st @ extra @ hd \<and> distinct (map refName (fst st @ extra)) \<and>
           (hd = [] \<or> (\<exists>h. hd = [h] \<and> refName h = ''HEAD''))"
proof -
  have s: "fst (syncPackedRefs d) = None"
    using res loose unfolding Refs_fst by (cases "fst (syncPackedRefs d)") simp_all
  let ?c = "cachedPackedRefs (snd (syncPackedRefs d))"
  have k: "keysOk ?c" using keysOk_sync wf by (simp add: wfManager_def)
  have sst: "seenOk st"
  proof (cases "lookupPath [refsPath] (root d)")
    case (Inl e)
    then show ?thesis using loose seenOk_empty
      by (auto simp: addRefsFromRefDir_def split: if_splits)
  next
    case (Inr x)
    then show ?thesis using loose walk_seenOk [OF seenOk_empty]
      by (cases x) (auto simp: addRefsFromRefDir_def)
  qed
  have "seenOk (addCached ?c st)" by (rule addCached_seenOk [OF k sst])
  then have dist: "distinct (map refName (fst (addCached ?c st)))" by (simp add: seenOk_def)
  obtain extra where e: "fst (addCached ?c st) = fst st @ extra" using addCached_prefix by blast
  have h: "rs = fst (addCached ?c st) \<or>
           (\<exists>c. rs = fst (addCached ?c st) @ [readReferenceFrom c ''HEAD''])"
    using res loose s unfolding Refs_fst
    by (auto simp: addRefFromHEAD_def readReferenceFile_def split: sum.splits node.splits if_splits)
  show ?thesis
  proof (rule exI [of _ extra])
    from h show "\<exists>hd. rs = fst st @ extra @ hd \<and> distinct (map refName (fst st @ extra)) \<and>
           (hd = [] \<or> (\<exists>h. hd = [h] \<and> refName h = ''HEAD''))"
    proof
      assume "rs = fst (addCached ?c st)"
      then show ?thesis using e dist by (intro exI [of _ "[]"]) simp
    next
      assume "\<exists>c. rs = fst (addCached ?c st) @ [readReferenceFrom c ''HEAD'']"
      then obtain c where "rs = fst (addCached ?c st) @ [readReferenceFrom c ''HEAD'']" by blast
      then show ?thesis using e dist
        by (intro exI [of _ "[readReferenceFrom c ''HEAD'']"]) simp
    qed
  qed
qed

subsection \<open>Claims about the repository manager\<close>

text \<open>
  C10. The claim: \<open>ObjectPacks\<close> is total, the slice \<open>n[5:len(n)-5]\<close> being within
  bounds for every name that ends in \<open>.pack\<close>, the name \<open>.pack\<close> included. The code
  has no length check: for the directory \<open>objects/pack\<close> holding one file named
  \<open>.pack\<close> the slice is \<open>n[5:0]\<close>, and \<open>ObjectPacks\<close> panics.
\<close>

theorem ObjectPacks_short_name_panics:
  "ObjectPacks [(''objects'', Dir [(''pack'', Dir [(''.pack'', File [] 0)])])]
     = Inl PanicSliceBounds"
  by (simp add: dotgit_eval)

text \<open>
  C7. The claim: \<open>SetPackedRefs\<close> fails when packed-refs already holds data. The code
  opens packed-refs with \<open>Create\<close>, which empties it, before it checks that the file
  is empty: on a packed-refs file with one entry the call succeeds and the entry is gone.
\<close>

theorem SetPackedRefs_overwrites_nonempty:
  "SetPackedRefs (New [(''packed-refs'', File (hexA @ '' refs/heads/x\<newline>'') 1)] 5) []
   = (None, \<lparr>root = [(''packed-refs'', File [] 5), (''._packed-refs'', File [] 5)],
             clock = 5, cachedPackedRefs = [], packedRefsLastMod = 0\<rparr>)"
  by (simp add: dotgit_eval)

text \<open>
  C3. The claim: \<open>Refs\<close> lists every reference name at most once, the loose value
  winning, also for \<open>HEAD\<close>. The code appends the \<open>HEAD\<close> file without looking at
  the names already listed: with a \<open>HEAD\<close> file and a packed-refs entry named
  \<open>HEAD\<close>, \<open>Refs\<close> lists \<open>HEAD\<close> twice, the packed value first.
\<close>

theorem Refs_HEAD_twice:
  "fst (Refs (New [(''HEAD'', File (hexA @ ''\<newline>'') 1),
                   (''packed-refs'', File (hexB @ '' HEAD\<newline>'') 2)] 5))
   = Inr [HashReference ''HEAD'' (NewHash hexB), HashReference ''HEAD'' (NewHash hexA)]"
  by (simp add: dotgit_eval)

text \<open>
  C8, as stated: with the line \<open>notahash refs/heads/x\<close> in packed-refs, \<open>Refs\<close>
  fails with the bad-format error. It does not: the line has two tokens, and the first is
  turned into the zero hash.
\<close>

theorem Refs_accepts_non_hex_line:
  "fst (Refs (New [(''packed-refs'', File ''notahash refs/heads/x\<newline>'' 2)] 5))
   = Inr [HashReference ''refs/heads/x'' ZeroHash]"
  by (simp add: dotgit_eval)

text \<open>
  C8, amended: when the packed-refs file is newer than the cache and the scanner yields
  a line that is not empty, does not begin with \<open>#\<close> or \<open>^\<close>, and does not split at
  single spaces into exactly two tokens, \<open>Refs\<close> fails with the bad-format error
  (the loose references having been read without error).
\<close>

theorem Refs_bad_token_count:
  assumes pfile: "lookupPath [packedRefsPath] (root d) = Inr (File c m)"
    and newer: "packedRefsLastMod d < m"
    and loose: "addRefsFromRefDir (root d) ([], {}) = Inr st"
    and line: "l \<in> set (fst (scanLines c))"
    and shape: "l \<noteq> []" "hd l \<noteq> CHR ''#''" "hd l \<noteq> CHR ''^''"
    and toks: "length (Split l CHR '' '') \<noteq> 2"
  shows "fst (Refs d) = Inl ErrPackedRefsBadFormat"
proof -
  have bad: "processLine l = Inl ErrPackedRefsBadFormat"
    using shape toks by (simp add: processLine_def Let_def)
  obtain ls serr where sc: "scanLines c = (ls, serr)" by (cases "scanLines c")
  with line have "l \<in> set ls" by simp
  from loadLines_bad [OF this bad, of "[]"]
  obtain cached where ll: "loadLines ls [] = (Some ErrPackedRefsBadFormat, cached)"
    by (cases "loadLines ls []") auto
  have "fst (syncPackedRefs d) = Some ErrPackedRefsBadFormat"
    using pfile newer sc ll by (simp add: syncPackedRefs_def)
  then obtain d1 where "syncPackedRefs d = (Some ErrPackedRefsBadFormat, d1)"
    by (cases "syncPackedRefs d") auto
  then show ?thesis using loose
    by (simp add: Refs_def addRefsFromPackedRefs_def)
qed

theorem Refs_bad_token_count_witness:
  "fst (Refs (New [(''packed-refs'', File (hexA @ '' refs/heads/x extra\<newline>'') 2)] 5))
   = Inl ErrPackedRefsBadFormat"
  by (rule Refs_bad_token_count [where c = "hexA @ '' refs/heads/x extra\<newline>''" and m = 2
        and l = "hexA @ '' refs/heads/x extra''" and st = "([], {})"])
     (simp_all add: dotgit_eval)

text \<open>
  C9. \<open>syncPackedRefs\<close> on a packed-refs file with modification time \<open>m\<close>: when
  \<open>m\<close> is strictly later than the recorded time stamp, the cache is rebuilt from the
  lines of the file, starting from the empty cache, and the time stamp becomes \<open>m\<close>
  once every line has parsed; when \<open>m\<close> is equal or earlier, the manager is returned
  unchanged, as it is when there is no packed-refs file.
\<close>

theorem syncPackedRefs_refresh_iff:
  "(\<forall>c m. lookupPath [packedRefsPath] (root d) = Inr (File c m) \<longrightarrow>
      (packedRefsLastMod d < m \<longrightarrow>
         cachedPackedRefs (snd (syncPackedRefs d)) = snd (loadLines (fst (scanLines c)) []) \<and>
         (fst (loadLines (fst (scanLines c)) []) = None \<longrightarrow>
            packedRefsLastMod (snd (syncPackedRefs d)) = m)) \<and>
      (\<not> packedRefsLastMod d < m \<longrightarrow> syncPackedRefs d = (None, d))) \<and>
   (lookupPath [packedRefsPath] (root d) = Inl ErrNotExist \<longrightarrow> syncPackedRefs d = (None, d))"
  by (simp add: syncPackedRefs_def split: prod.splits option.splits)

theorem syncPackedRefs_refresh_iff_witness:
  "(let d = New [(''packed-refs'', File (hexA @ '' refs/heads/x\<newline>'') 2)] 5 in
      packedRefsLastMod d < 2 \<and>
      cachedPackedRefs (snd (syncPackedRefs d))
        = [(''refs/heads/x'', HashReference ''refs/heads/x'' (NewHash hexA))] \<and>
      packedRefsLastMod (snd (syncPackedRefs d)) = 2) \<and>
   (let d = \<lparr>root = [(''packed-refs'', File (hexA @ '' refs/heads/x\<newline>'') 2)], clock = 5,
              cachedPackedRefs = [], packedRefsLastMod = 2\<rparr> in
      \<not> packedRefsLastMod d < 2 \<and> syncPackedRefs d = (None, d)) \<and>
   (let d = \<lparr>root = [], clock = 5,
              cachedPackedRefs = [], packedRefsLastMod = 2\<rparr> in
      syncPackedRefs d = (None, d))"
  using syncPackedRefs_refresh_iff [of "New [(''packed-refs'', File (hexA @ '' refs/heads/x\<newline>'') 2)] 5"]
    syncPackedRefs_refresh_iff [of "\<lparr>root = [(''packed-refs'', File (hexA @ '' refs/heads/x\<newline>'') 2)],
      clock = 5, cachedPackedRefs = [], packedRefsLastMod = 2\<rparr>"]
    syncPackedRefs_refresh_iff [of "\<lparr>root = [], clock = 5,
              cachedPackedRefs = [], packedRefsLastMod = 2\<rparr>"]
  by (simp add: New_def packedRefsPath_def scanLines_def dropCR_def processLine_def Split_def
      NewReferenceFromStrings_def symrefPrefix_def Let_def hexA_def)

text \<open>
  C1, as stated: when the stored value differs from the expected hash, \<open>SetRef\<close>
  fails with the reference-changed error. With \<open>HEAD\<close> stored as a symbolic
  reference (its hash is the zero hash) and no packed-refs entry to fall back to, the
  expected hash differs from what is stored, and \<open>SetRef\<close> fails with the
  reference-not-found error of the packed-refs lookup.
\<close>

theorem SetRef_symbolic_not_found:
  "refHash (readReferenceFrom ''ref: refs/heads/master\<newline>'' ''HEAD'') = ZeroHash \<and>
   ZeroHash \<noteq> refHash (HashReference ''HEAD'' (NewHash hexA)) \<and>
   SetRef (New [(''HEAD'', File ''ref: refs/heads/master\<newline>'' 1)] 5)
       (HashReference ''HEAD'' (NewHash hexC)) (Some (HashReference ''HEAD'' (NewHash hexA)))
     = (Some ErrReferenceNotFound, New [(''HEAD'', File ''ref: refs/heads/master\<newline>'' 1)] 5)"
  by (simp add: dotgit_eval)

text \<open>
  C1, amended. Let the loose file named by \<open>r\<close> exist, and let \<open>h\<close> be the hash of
  its contents read as a reference. If \<open>h\<close> is not zero and differs from the expected
  hash, \<open>SetRef\<close> fails with the reference-changed error. If \<open>h\<close> is zero (empty or
  symbolic contents), the packed-refs entry under the name of the expected reference
  decides: an entry with another hash gives the reference-changed error, and a lookup
  that fails gives the error of the lookup. In each of these cases the file system is
  left as it was.
\<close>

theorem SetRef_mismatch_fails:
  assumes loose: "lookupPath (pathOf (refName r)) (root d) = Inr (File b m)"
  shows "(let h = refHash (readReferenceFrom b (refName old));
              res = SetRef d r (Some old) in
          (h \<noteq> ZeroHash \<and> h \<noteq> refHash old \<longrightarrow>
             fst res = Some ErrReferenceChanged \<and> root (snd res) = root d) \<and>
          (h = ZeroHash \<longrightarrow>
             (case fst (packedRef d (refName old)) of
                Inr pref \<Rightarrow>
                  refHash pref \<noteq> refHash old \<longrightarrow>
                    fst res = Some ErrReferenceChanged \<and> root (snd res) = root d
              | Inl e \<Rightarrow> fst res = Some e \<and> root (snd res) = root d)))"
proof -
  have o: "openFile (pathOf (refName r)) False d = Inr (b, d)"
    using loose by (simp add: openFile_def)
  obtain pr d1 where p: "packedRef d (refName old) = (pr, d1)"
    by (cases "packedRef d (refName old)")
  have "root d1 = root d" using packedRef_root [of d "refName old"] p by simp
  then show ?thesis using o p
    by (cases pr) (simp_all add: SetRef_def checkReference_def IsZero_def Let_def)
qed

theorem SetRef_mismatch_fails_witness:
  "(let d = New [(''refs'', Dir [(''heads'', Dir [(''x'', File (hexB @ ''\<newline>'') 1)])])] 5 in
      SetRef d (HashReference ''refs/heads/x'' (NewHash hexC))
               (Some (HashReference ''refs/heads/x'' (NewHash hexA)))
        = (Some ErrReferenceChanged, d)) \<and>
   (let d = New [(''refs'', Dir [(''heads'', Dir [(''x'', File [] 1)])]),
                 (''packed-refs'', File (hexB @ '' refs/heads/x\<newline>'') 2)] 5;
        res = SetRef d (HashReference ''refs/heads/x'' (NewHash hexC))
                       (Some (HashReference ''refs/heads/x'' (NewHash hexA))) in
      fst res = Some ErrReferenceChanged \<and> root (snd res) = root d) \<and>
   (let d = New [(''refs'', Dir [(''heads'', Dir [(''x'', File [] 1)])])] 5;
        res = SetRef d (HashReference ''refs/heads/x'' (NewHash hexC))
                       (Some (HashReference ''refs/heads/x'' (NewHash hexA))) in
      fst res = Some ErrReferenceNotFound \<and> root (snd res) = root d)"
  using
    SetRef_mismatch_fails [of "HashReference ''refs/heads/x'' (NewHash hexC)"
      "New [(''refs'', Dir [(''heads'', Dir [(''x'', File (hexB @ ''\<newline>'') 1)])])] 5"
      "hexB @ ''\<newline>''" 1 "HashReference ''refs/heads/x'' (NewHash hexA)"]
    SetRef_mismatch_fails [of "HashReference ''refs/heads/x'' (NewHash hexC)"
      "New [(''refs'', Dir [(''heads'', Dir [(''x'', File [] 1)])]),
            (''packed-refs'', File (hexB @ '' refs/heads/x\<newline>'') 2)] 5"
      "[]" 1 "HashReference ''refs/heads/x'' (NewHash hexA)"]
    SetRef_mismatch_fails [of "HashReference ''refs/heads/x'' (NewHash hexC)"
      "New [(''refs'', Dir [(''heads'', Dir [(''x'', File [] 1)])])] 5"
      "[]" 1 "HashReference ''refs/heads/x'' (NewHash hexA)"]
  by (simp add: dotgit_eval)

text \<open>
  Where the loose file does not exist, the failed call leaves a trace: the file has been
  created by the open, and it stays, empty, in front of the packed value.
\<close>

lemma SetRef_failed_cas_leaves_file:
  "(let d = New [(''packed-refs'', File (hexB @ '' refs/heads/x\<newline>'') 2)] 5;
        res = SetRef d (HashReference ''refs/heads/x'' (NewHash hexC))
                       (Some (HashReference ''refs/heads/x'' (NewHash hexA))) in
    fst (Ref d ''refs/heads/x'') = Inr (HashReference ''refs/heads/x'' (NewHash hexB)) \<and>
    fst res = Some ErrReferenceChanged \<and>
    root (snd res) = root d @ [(''refs'', Dir [(''heads'', Dir [(''x'', File [] 5)])])] \<and>
    fst (Ref (snd res) ''refs/heads/x'') = Inr (HashReference ''refs/heads/x'' ZeroHash))"
  by (simp add: dotgit_eval)

text \<open>
  C4. The claim: after a successful \<open>PackRefs\<close> the (name, hash) pairs that \<open>Refs\<close>
  gives are those it gave before, and no loose reference is left. \<open>PackRefs\<close> writes
  every reference as the line \<open>Reference.String\<close> gives, and for a symbolic reference
  that line has three tokens, which \<open>processLine\<close> refuses. With the loose references
  \<open>refs/remotes/origin/master\<close> and \<open>refs/remotes/origin/HEAD\<close>, the second one
  symbolic, \<open>PackRefs\<close> succeeds and deletes both files, and the packed-refs file it
  has written cannot be read: \<open>Refs\<close> of a manager opened on the repository fails with
  the bad-format error.
\<close>

theorem PackRefs_symbolic_ref_unreadable:
  "(let d = New [(''refs'', Dir [(''remotes'', Dir [(''origin'',
                    Dir [(''HEAD'', File ''ref: refs/remotes/origin/master\<newline>'' 1),
                         (''master'', File (hexA @ ''\<newline>'') 1)])])])] 5;
        d' = snd (PackRefs d 6)
    in fst (PackRefs d 6) = None \<and>
       refPairs (fst (Refs d)) =
         Inr {(''refs/remotes/origin/HEAD'', ZeroHash),
              (''refs/remotes/origin/master'', NewHash hexA)} \<and>
       root d' =
         [(''refs'', Dir [(''remotes'', Dir [(''origin'', Dir [])])]),
          (''packed-refs'',
           File (''ref: refs/remotes/origin/master refs/remotes/origin/HEAD\<newline>'' @
                 hexA @ '' refs/remotes/origin/master\<newline>'') 5)] \<and>
       CountLooseRefs d' = Inr 0 \<and>
       fst (Refs (New (root d') 7)) = Inl ErrPackedRefsBadFormat)"
  by (simp add: PackRefs_def CountLooseRefs_def dotgit_eval char_of_abc insert_commute)

text \<open>
  The manager that has packed the references does not see this as long as it answers
  from its cache, which \<open>PackRefs\<close> fills from memory and stamps with the time it reads
  at its end (lemma \<open>PackRefs_success\<close>). Where every reference is a hash reference,
  the file written is read back by a new manager to the same pairs; the packed-refs file
  of this example begins with a comment line and holds a peeled line.
\<close>

lemma PackRefs_hash_refs_readable:
  "(let d = New [(''HEAD'', File ''ref: refs/heads/a\<newline>'' 1),
                 (''refs'', Dir [(''heads'', Dir [(''a'', File (hexA @ ''\<newline>'') 1)])]),
                 (''packed-refs'',
                  File (''# pack-refs with: peeled\<newline>'' @ hexB @ '' refs/heads/a\<newline>'' @
                        hexC @ '' refs/tags/t\<newline>'' @ ''^'' @ hexB @ ''\<newline>'') 2)] 5;
        d' = snd (PackRefs d 6)
    in wfManager d \<and> fst (PackRefs d 6) = None \<and>
       refPairs (fst (Refs d)) =
         Inr {(''refs/heads/a'', NewHash hexA), (''refs/tags/t'', NewHash hexC),
              (''HEAD'', ZeroHash)} \<and>
       root d' =
         [(''HEAD'', File ''ref: refs/heads/a\<newline>'' 1),
          (''refs'', Dir [(''heads'', Dir [])]),
          (''packed-refs'',
           File (hexA @ '' refs/heads/a\<newline>'' @ hexC @ '' refs/tags/t\<newline>'') 5)] \<and>
       refPairs (fst (Refs d')) = refPairs (fst (Refs d)) \<and>
       refPairs (fst (Refs (New (root d') 7))) = refPairs (fst (Refs d)) \<and>
       CountLooseRefs d' = Inr 0)"
  by (simp add: PackRefs_def CountLooseRefs_def dotgit_eval wfManager_def keysOk_def char_of_abc
      insert_commute)


section \<open>Claims about the pack parser\<close>

lemmas parser_eval =
  parsePack_def NewParserWithStorage_def scannerOf_def recorder_def Parse_def init_def
  notify_def indexObjects_def indexObject_def NextObjectHeader_def NextObject_def
  packObject_def newBaseObject_def newDeltaObject_def addChild_def getSHA1_def
  exampleHasher_def str_def resolveDeltas_def resolveDelta_def cacheGet_def cachePut_def
  readData_def SeekFromStart_def resolveObject_def applyPatchBase_def PatchDelta_def
  deltaStep_def bitSet_def SetEncodedObject_def EncodedObject_def ZeroHash_list deltaC_def
  deltaD_def deltaE_def Let_def cacheMaxSize_def cacheSize_def

text \<open>
  A chain of offset-deltas is resolved, with a seekable source and with a storage: one
  tuple for each object, with the hash of its type, length and resolved contents.
\<close>

lemma Parse_offset_chain:
  "parsePack packChain True None
     = Some (Inr [9, 9, 9, 9, 9, 9, 9, 9, 9, 9, 9, 9, 9, 9, 9, 9, 9, 9, 9, 9],
             [(exampleHasher BlobObject 2 (str ''ab''), BlobObject, 2, 100),
              (exampleHasher BlobObject 3 (str ''abc''), BlobObject, 3, 101),
              (exampleHasher BlobObject 4 (str ''abcd''), BlobObject, 4, 102)],
             []) \<and>
   parsePack packChain False (Some []) = parsePack packChain True None"
  by (simp add: parser_eval packChain_def)

text \<open>\<open>Parse\<close> does not report success with a reference-delta still pending.\<close>

lemma notify_pending [simp]: "pendingRefDeltas (snd (notify p ev)) = pendingRefDeltas p"
  by (simp add: notify_def split: prod.splits)

lemma Parse_success_no_pending:
  assumes "Parse H fuel p = Some (Inr h, p')"
  shows "pendingRefDeltas p' = []"
proof -
  from assms obtain p4 where n: "0 < length (pendingRefDeltas p4) = False"
    and f: "notify p4 (OnFooter (checksum p4)) = (None, p')"
    by (auto simp: Parse_def Let_def split: prod.splits option.splits sum.splits if_splits)
  have "pendingRefDeltas p' = pendingRefDeltas p4" using notify_pending [of p4 "OnFooter (checksum p4)"] f
    by simp
  then show ?thesis using n by simp
qed

text \<open>
  C2. The claim: for every valid pack, \<open>Parse\<close> gives one
  \<open>OnInflatedObjectContent\<close> callback per object, with the canonical hash. For the
  pack of scenario S7, a reference-delta followed by its base, \<open>Parse\<close> gives none:
  the delta is pending with a nil parent when \<open>resolveDeltas\<close> reaches it, and
  \<open>get\<close> panics on the nil pointer, with a seekable source as with a storage.
\<close>

theorem Parse_forward_ref_delta_panics:
  "parsePack packForward True None
     = Some (Inl PanicNilDeref, [], [(exampleHasher BlobObject 2 (str ''ab''), [0])]) \<and>
   parsePack packForward False (Some [])
     = Some (Inl PanicNilDeref, [], [(exampleHasher BlobObject 2 (str ''ab''), [0])])"
  by (simp add: parser_eval packForward_def)

text \<open>
  C5. The claim: with a reference-delta left unresolved, \<open>Parse\<close> fails and returns
  the missing-reference-delta error. For a thin pack, whose only object is a
  reference-delta over an object that is not in the pack, \<open>Parse\<close> does not return:
  it panics on the nil parent of the pending delta before the test of the pending map.
\<close>

theorem Parse_thin_pack_panics:
  "parsePack packThin True None
     = Some (Inl PanicNilDeref, [], [(exampleHasher BlobObject 2 (str ''ab''), [0])])"
  by (simp add: parser_eval packThin_def)

text \<open>
  C6. The claim: a seekable source and a source that is not seekable (with a storage)
  emit the same (hash, type, length, crc) tuples for the same pack. For the pack of five
  objects the seekable parse emits five tuples and succeeds. The other one emits four
  and fails with the delta-not-cached error: the retained bytes of the reference-delta
  are dropped once its own child is resolved, and they are asked for again when the
  parse reaches its base, which comes later in the pack.
\<close>

theorem Parse_not_seekable_differs:
  "parsePack packFive True None
     = Some (Inr [9, 9, 9, 9, 9, 9, 9, 9, 9, 9, 9, 9, 9, 9, 9, 9, 9, 9, 9, 9],
             [(exampleHasher BlobObject 2 (str ''ab''), BlobObject, 2, 100),
              (exampleHasher BlobObject 4 (str ''abcd''), BlobObject, 4, 101),
              (exampleHasher BlobObject 5 (str ''abcde''), BlobObject, 5, 102),
              (exampleHasher BlobObject 3 (str ''abc''), BlobObject, 3, 103),
              (exampleHasher BlobObject 1 (str ''z''), BlobObject, 1, 104)],
             []) \<and>
   parsePack packFive False (Some [])
     = Some (Inl ErrDeltaNotCached,
             [(exampleHasher BlobObject 2 (str ''ab''), BlobObject, 2, 100),
              (exampleHasher BlobObject 4 (str ''abcd''), BlobObject, 4, 101),
              (exampleHasher BlobObject 5 (str ''abcde''), BlobObject, 5, 102),
              (exampleHasher BlobObject 3 (str ''abc''), BlobObject, 3, 103)],
             [])"
  by (simp add: parser_eval packFive_def)

end
